theory Spec2Isabelle
  imports Main "HOL-Library.Word"
begin

unbundle bit_operations_syntax

section \<open>JavaScript numbers used as integers\<close>

text \<open>
  The driver (src/lib/Adafruit_SSD1315.js) computes with integer-valued numbers only:
  coordinates, lengths, byte indices and command bytes. They are modelled as \<open>int\<close>.
  A JavaScript number is a double: an integer is represented exactly when 53 bits hold
  its magnitude, and the result of \<open>-\<close> is the exact difference rounded to the nearest
  double, ties to the even significand. The public methods \<open>drawFastHLine\<close> and
  \<open>drawFastVLine\<close> subtract coordinates and lengths of any size, so their differences
  are rounded here (\<open>js_sub\<close>). In the two primitives, for a display of fewer than
  \<open>2 ^ 53\<close> columns and rows, every sum or difference of a coordinate and a length is
  either exact or only compared with zero or a bound of the display, where the rounded
  and the exact value compare alike, so \<open>+\<close> and \<open>-\<close> of \<open>int\<close> stand for them there.
  The bitwise operators of JavaScript first coerce both operands to signed 32-bit
  integers, which is written out here.
\<close>

text \<open>The number of bits of the binary numeral of a positive integer.\<close>

function bitlen :: "int \<Rightarrow> nat" where
  "bitlen a = (if a \<le> 0 then 0 else Suc (bitlen (a div 2)))"
  by pat_completeness auto
termination
  by (relation "measure nat") auto

declare bitlen.simps [simp del]

text \<open>
  The double nearest to the integer \<open>v\<close>: \<open>v\<close> itself when its magnitude has at most 53
  bits; otherwise the bits below the 53 leading ones are rounded away, to the nearest
  multiple of \<open>u = 2 ^ (bitlen - 53)\<close>, a tie going to the even multiple. A double has no
  exponent above 1023: where the rounded magnitude reaches \<open>2 ^ 1024\<close> JavaScript has
  \<open>Infinity\<close>, and \<open>to_double\<close> keeps the integer. For a display of fewer than \<open>2 ^ 970\<close>
  columns and rows only the last subtraction of a public method can get there, and
  both primitives clip a run at such a coordinate away, whether it is that integer or
  \<open>Infinity\<close>.
\<close>

definition to_double :: "int \<Rightarrow> int" where
  "to_double v =
     (let a = \<bar>v\<bar>; n = bitlen a
      in if n \<le> 53 then v
         else
           (let u = 2 ^ (n - 53); q = a div u; r = a mod u;
                q' = (if 2 * r < u \<or> (2 * r = u \<and> even q) then q else q + 1)
            in sgn v * (q' * u)))"

text \<open>\<open>a - b\<close> of two numbers.\<close>

definition js_sub :: "int \<Rightarrow> int \<Rightarrow> int" where
  "js_sub a b = to_double (a - b)"

definition ToInt32 :: "int \<Rightarrow> int" where
  "ToInt32 v = sint (word_of_int v :: 32 word)"

definition js_xor :: "int \<Rightarrow> int \<Rightarrow> int" where
  "js_xor a b = sint ((word_of_int a :: 32 word) XOR word_of_int b)"

definition js_and :: "int \<Rightarrow> int \<Rightarrow> int" where
  "js_and a b = sint ((word_of_int a :: 32 word) AND word_of_int b)"

definition js_or :: "int \<Rightarrow> int \<Rightarrow> int" where
  "js_or a b = sint ((word_of_int a :: 32 word) OR word_of_int b)"

text \<open>\<open>toInt (a / b)\<close> with \<open>toInt = Math.trunc\<close>, for a positive divisor: rounds towards zero.\<close>

definition toInt_div :: "int \<Rightarrow> int \<Rightarrow> int" where
  "toInt_div a b = (if 0 \<le> a then a div b else - ((- a) div b))"

section \<open>Constants of the driver\<close>

definition SSD1315_COLUMN_ADDR :: int where "SSD1315_COLUMN_ADDR = 0x21"
definition SSD1315_PAGE_ADDR :: int where "SSD1315_PAGE_ADDR = 0x22"
definition SSD1315_MEMORY_MODE :: int where "SSD1315_MEMORY_MODE = 0x20"
definition SSD1315_VERTICAL_AND_RIGHT_HORIZONTAL_SCROLL :: int where
  "SSD1315_VERTICAL_AND_RIGHT_HORIZONTAL_SCROLL = 0x29"
definition SSD1315_VERTICAL_AND_LEFT_HORIZONTAL_SCROLL :: int where
  "SSD1315_VERTICAL_AND_LEFT_HORIZONTAL_SCROLL = 0x2A"
definition SSD1315_DEACTIVATE_SCROLL :: int where "SSD1315_DEACTIVATE_SCROLL = 0x2E"
definition SSD1315_ACTIVATE_SCROLL :: int where "SSD1315_ACTIVATE_SCROLL = 0x2F"
definition SSD1315_SET_DISPLAY_START_LINE_BASE :: int where
  "SSD1315_SET_DISPLAY_START_LINE_BASE = 0x40"
definition SSD1315_SET_CONTRAST :: int where "SSD1315_SET_CONTRAST = 0x81"
definition SSD1315_CHARGE_PUMP :: int where "SSD1315_CHARGE_PUMP = 0x8D"
definition SSD1315_SET_VERTICAL_SCROLL_AREA :: int where "SSD1315_SET_VERTICAL_SCROLL_AREA = 0xA3"
definition SSD1315_DISPLAY_ALL_ON_RESUME :: int where "SSD1315_DISPLAY_ALL_ON_RESUME = 0xA4"
definition SSD1315_NORMAL_DISPLAY :: int where "SSD1315_NORMAL_DISPLAY = 0xA6"
definition SSD1315_SET_MULTIPLEX :: int where "SSD1315_SET_MULTIPLEX = 0xA8"
definition SSD1315_DISPLAY_OFF :: int where "SSD1315_DISPLAY_OFF = 0xAE"
definition SSD1315_SEG_REMAP_FLIP :: int where "SSD1315_SEG_REMAP_FLIP = 0xA1"
definition SSD1315_COM_SCAN_DEC :: int where "SSD1315_COM_SCAN_DEC = 0xC8"
definition SSD1315_SET_DISPLAY_OFFSET :: int where "SSD1315_SET_DISPLAY_OFFSET = 0xD3"
definition SSD1315_SET_DISPLAY_CLOCK_DIV :: int where "SSD1315_SET_DISPLAY_CLOCK_DIV = 0xD5"
definition SSD1315_SET_PRECHARGE :: int where "SSD1315_SET_PRECHARGE = 0xD9"
definition SSD1315_SET_COM_PINS :: int where "SSD1315_SET_COM_PINS = 0xDA"
definition SSD1315_SET_VCOM_DETECT :: int where "SSD1315_SET_VCOM_DETECT = 0xDB"

definition SSD1315_EXTERNALVCC :: int where "SSD1315_EXTERNALVCC = 0x01"
definition SSD1315_SWITCHCAPVCC :: int where "SSD1315_SWITCHCAPVCC = 0x02"

definition SSD1315_INIT_SEQ_1 :: "int list" where
  "SSD1315_INIT_SEQ_1 = [SSD1315_DISPLAY_OFF, SSD1315_SET_DISPLAY_CLOCK_DIV, 0x80]"

definition SSD1315_INIT_SEQ_2 :: "int list" where
  "SSD1315_INIT_SEQ_2 =
     [SSD1315_MEMORY_MODE, 0x00, SSD1315_SEG_REMAP_FLIP, SSD1315_COM_SCAN_DEC,
      SSD1315_SET_VCOM_DETECT, 0x20]"

definition SSD1315_INIT_SEQ_3 :: "int list" where
  "SSD1315_INIT_SEQ_3 =
     [SSD1315_DISPLAY_ALL_ON_RESUME, SSD1315_NORMAL_DISPLAY, SSD1315_DEACTIVATE_SCROLL]"

definition SSD1315_BLACK :: int where "SSD1315_BLACK = 0"
definition SSD1315_WHITE :: int where "SSD1315_WHITE = 1"
definition SSD1315_INVERSE :: int where "SSD1315_INVERSE = 2"

definition SSD1315_VLINE_PRE_MASK :: "8 word list" where
  "SSD1315_VLINE_PRE_MASK = [0x00, 0x80, 0xC0, 0xE0, 0xF0, 0xF8, 0xFC, 0xFE]"

definition SSD1315_VLINE_POST_MASK :: "8 word list" where
  "SSD1315_VLINE_POST_MASK = [0x00, 0x01, 0x03, 0x07, 0x0F, 0x1F, 0x3F, 0x7F]"

section \<open>The display object\<close>

text \<open>
  What the transport receives, in order. The base class \<open>Adafruit_GrayOLED\<close> of the
  package \<open>adafruit-gfx-library\<close> supplies \<open>oled_commandList\<close> and \<open>oled_data\<close>; the
  driver only calls them, so a call is recorded with its argument.
\<close>

datatype bus_event = CommandList "int list" | DataBlock "8 word list"

text \<open>
  The fields of the object that the driver reads or writes. \<open>buffer\<close> is the
  \<open>Uint8Array\<close> \<open>_buffer\<close>. \<open>bus\<close> is the log of transport calls. \<open>touched\<close> is not a field
  of the source: it records, in order, every index used to subscript \<open>_buffer\<close> by the two
  line primitives, so that statements about the indices they access can be made.
\<close>

record ssd1315 =
  WIDTH :: int
  HEIGHT :: int
  rotation :: int
  vccSelection :: int
  contrast :: int
  display_offset :: int
  start_line :: int
  buffer :: "8 word list"
  window_x1 :: int
  window_y1 :: int
  window_x2 :: int
  window_y2 :: int
  bus :: "bus_event list"
  touched :: "int list"

text \<open>The constructor allocates \<open>WIDTH * toInt ((HEIGHT + 7) / 8)\<close> bytes.\<close>

definition buffer_size :: "ssd1315 \<Rightarrow> int" where
  "buffer_size s = WIDTH s * toInt_div (HEIGHT s + 7) 8"

definition well_formed :: "ssd1315 \<Rightarrow> bool" where
  "well_formed s \<longleftrightarrow>
     0 \<le> WIDTH s \<and> 0 \<le> HEIGHT s \<and> int (length (buffer s)) = buffer_size s"

definition oled_commandList :: "int list \<Rightarrow> ssd1315 \<Rightarrow> ssd1315" where
  "oled_commandList cs s = s\<lparr>bus := bus s @ [CommandList cs]\<rparr>"

definition oled_data :: "8 word list \<Rightarrow> ssd1315 \<Rightarrow> ssd1315" where
  "oled_data bs s = s\<lparr>bus := bus s @ [DataBlock bs]\<rparr>"

text \<open>
  \<open>buffer[index] = f (buffer[index])\<close> on a \<open>Uint8Array\<close>: the stored value is reduced to
  8 bits; an index outside the array reads \<open>undefined\<close> and the store is dropped, so the
  array is unchanged there.
\<close>

definition buffer_rmw :: "(8 word \<Rightarrow> 8 word) \<Rightarrow> int \<Rightarrow> ssd1315 \<Rightarrow> ssd1315" where
  "buffer_rmw f index s =
     s\<lparr>buffer :=
          (if 0 \<le> index \<and> index < int (length (buffer s))
           then (buffer s)[nat index := f (buffer s ! nat index)]
           else buffer s),
       touched := touched s @ [index]\<rparr>"

text \<open>The four assignments that grow the dirty window (lines 633-636 and 695-698).\<close>

definition adjust_dirty_window :: "int \<Rightarrow> int \<Rightarrow> int \<Rightarrow> int \<Rightarrow> ssd1315 \<Rightarrow> ssd1315" where
  "adjust_dirty_window x1 y1 x2 y2 s =
     s\<lparr>window_x1 := min (window_x1 s) x1,
       window_y1 := min (window_y1 s) y1,
       window_x2 := max (window_x2 s) x2,
       window_y2 := max (window_y2 s) y2\<rparr>"

section \<open>The horizontal primitive\<close>

text \<open>
  \<open>while (w--) buffer[index++] op= value\<close>. The loop is entered under the guard
  \<open>w > 0\<close> with an integer \<open>w\<close>, so it runs \<open>w\<close> times; the count is passed as a \<open>nat\<close>.
\<close>

primrec hline_loop :: "(8 word \<Rightarrow> 8 word) \<Rightarrow> int \<Rightarrow> nat \<Rightarrow> ssd1315 \<Rightarrow> ssd1315" where
  "hline_loop f index 0 s = s"
| "hline_loop f index (Suc n) s = hline_loop f (index + 1) n (buffer_rmw f index s)"

definition drawFastHLineInternal :: "ssd1315 \<Rightarrow> int \<Rightarrow> int \<Rightarrow> int \<Rightarrow> int \<Rightarrow> ssd1315" where
  "drawFastHLineInternal s x y w color =
     (if 0 \<le> y \<and> y < HEIGHT s then
        let (x1, w1) = (if x < 0 then (0, w + x) else (x, w));
            w2 = (if x1 + w1 > WIDTH s then WIDTH s - x1 else w1)
        in if w2 > 0 then
             let s1 = adjust_dirty_window x1 y (x1 + w2 - 1) y s;
                 index = x1 + toInt_div y 8 * WIDTH s;
                 val = (push_bit (nat (js_and y 7)) 1 :: 8 word)
             in if color = SSD1315_WHITE then hline_loop (\<lambda>b. b OR val) index (nat w2) s1
                else if color = SSD1315_BLACK then hline_loop (\<lambda>b. b AND NOT val) index (nat w2) s1
                else if color = SSD1315_INVERSE then hline_loop (\<lambda>b. b XOR val) index (nat w2) s1
                else s1
           else s
      else s)"

section \<open>The vertical primitive\<close>

text \<open>The three-way \<open>switch (color)\<close> on one byte and a mask; it has no default branch.\<close>

definition mask_byte :: "int \<Rightarrow> 8 word \<Rightarrow> int \<Rightarrow> ssd1315 \<Rightarrow> ssd1315" where
  "mask_byte color msk index s =
     (if color = SSD1315_WHITE then buffer_rmw (\<lambda>b. b OR msk) index s
      else if color = SSD1315_BLACK then buffer_rmw (\<lambda>b. b AND NOT msk) index s
      else if color = SSD1315_INVERSE then buffer_rmw (\<lambda>b. b XOR msk) index s
      else s)"

text \<open>
  \<open>do { buffer[index] = f (buffer[index]); index += WIDTH; hTemp -= 8 } while (hTemp >= 8)\<close>,
  returning the object with the final \<open>index\<close> and \<open>hTemp\<close>.
\<close>

function whole_bytes ::
  "(8 word \<Rightarrow> 8 word) \<Rightarrow> int \<Rightarrow> int \<Rightarrow> int \<Rightarrow> ssd1315 \<Rightarrow> ssd1315 \<times> int \<times> int" where
  "whole_bytes f W index hTemp s =
     (let s' = buffer_rmw f index s;
          index' = index + W;
          hTemp' = hTemp - 8
      in if hTemp' \<ge> 8 then whole_bytes f W index' hTemp' s' else (s', index', hTemp'))"
  by pat_completeness auto
termination
  by (relation "measure (\<lambda>(f, W, index, hTemp, s). nat hTemp)") auto

declare whole_bytes.simps [simp del]

text \<open>Lines 733-776: the whole bytes and the final partial byte.\<close>

definition vline_rest :: "int \<Rightarrow> int \<Rightarrow> int \<Rightarrow> int \<Rightarrow> ssd1315 \<Rightarrow> ssd1315" where
  "vline_rest color index hTemp md s =
     (if hTemp \<ge> md then
        let hTemp1 = hTemp - md;
            (s2, index2, hTemp2) =
              (if hTemp1 \<ge> 8 then
                 (if color = SSD1315_INVERSE
                  then whole_bytes (\<lambda>b. b XOR 0xFF) (WIDTH s) index hTemp1 s
                  else whole_bytes (\<lambda>b. if color \<noteq> SSD1315_BLACK then 0xFF else 0x00)
                         (WIDTH s) index hTemp1 s)
               else (s, index, hTemp1))
        in if hTemp2 \<noteq> 0
           then mask_byte color (SSD1315_VLINE_POST_MASK ! nat (js_and hTemp2 7)) index2 s2
           else s2
      else s)"

text \<open>Lines 702-776: the body under \<open>h > 0\<close>, after the window has been adjusted.\<close>

definition vline_body :: "int \<Rightarrow> int \<Rightarrow> int \<Rightarrow> int \<Rightarrow> ssd1315 \<Rightarrow> ssd1315" where
  "vline_body color x yTemp hTemp s =
     (let index = x + toInt_div yTemp 8 * WIDTH s;
          md = js_and yTemp 7
      in if md \<noteq> 0 then
           let md1 = 8 - md;
               msk0 = SSD1315_VLINE_PRE_MASK ! nat md1;
               msk = (if hTemp < md1 then msk0 AND drop_bit (nat (md1 - hTemp)) 0xFF else msk0)
           in vline_rest color (index + WIDTH s) hTemp md1 (mask_byte color msk index s)
         else vline_rest color index hTemp md s)"

definition drawFastVLineInternal :: "ssd1315 \<Rightarrow> int \<Rightarrow> int \<Rightarrow> int \<Rightarrow> int \<Rightarrow> ssd1315" where
  "drawFastVLineInternal s x y h color =
     (if 0 \<le> x \<and> x < WIDTH s then
        let (y1, h1) = (if y < 0 then (0, h + y) else (y, h));
            h2 = (if y1 + h1 > HEIGHT s then HEIGHT s - y1 else h1)
        in if h2 > 0
           then vline_body color x y1 h2 (adjust_dirty_window x y1 x (y1 + h2 - 1) s)
           else s
      else s)"

section \<open>Rotation\<close>

text \<open>\<open>x ^= y, y ^= x, x ^= y\<close>: the pair \<open>(x, y)\<close> after the three assignments.\<close>

definition xor_swap :: "int \<Rightarrow> int \<Rightarrow> int \<times> int" where
  "xor_swap x y =
     (let x1 = js_xor x y;
          y1 = js_xor y x1;
          x2 = js_xor x1 y1
      in (x2, y1))"

text \<open>
  \<open>drawFastHLine\<close> (lines 402-436) and \<open>drawFastVLine\<close> (lines 457-490): the \<open>switch\<close> on
  the rotation, assignment by assignment, then the call of a primitive.
\<close>

definition drawFastHLine :: "ssd1315 \<Rightarrow> int \<Rightarrow> int \<Rightarrow> int \<Rightarrow> int \<Rightarrow> ssd1315" where
  "drawFastHLine s x y w color =
     (let (bSwap, x', y') =
        (if rotation s = 1 then
           (let (xs, ys) = xor_swap x y;
                x1 = js_sub (js_sub (WIDTH s) xs) 1
            in (True, x1, ys))
         else if rotation s = 2 then
           (let x1 = js_sub (js_sub (WIDTH s) x) 1;
                y1 = js_sub (js_sub (HEIGHT s) y) 1;
                x2 = js_sub x1 (js_sub w 1)
            in (False, x2, y1))
         else if rotation s = 3 then
           (let (xs, ys) = xor_swap x y;
                y1 = js_sub (js_sub (HEIGHT s) ys) 1;
                y2 = js_sub y1 (js_sub w 1)
            in (True, xs, y2))
         else (False, x, y))
      in if bSwap then drawFastVLineInternal s x' y' w color
         else drawFastHLineInternal s x' y' w color)"

definition drawFastVLine :: "ssd1315 \<Rightarrow> int \<Rightarrow> int \<Rightarrow> int \<Rightarrow> int \<Rightarrow> ssd1315" where
  "drawFastVLine s x y h color =
     (let (bSwap, x', y') =
        (if rotation s = 1 then
           (let (xs, ys) = xor_swap x y;
                x1 = js_sub (js_sub (WIDTH s) xs) 1;
                x2 = js_sub x1 (js_sub h 1)
            in (True, x2, ys))
         else if rotation s = 2 then
           (let x1 = js_sub (js_sub (WIDTH s) x) 1;
                y1 = js_sub (js_sub (HEIGHT s) y) 1;
                y2 = js_sub y1 (js_sub h 1)
            in (False, x1, y2))
         else if rotation s = 3 then
           (let (xs, ys) = xor_swap x y;
                y1 = js_sub (js_sub (HEIGHT s) ys) 1
            in (True, xs, y1))
         else (False, x, y))
      in if bSwap then drawFastHLineInternal s x' y' h color
         else drawFastVLineInternal s x' y' h color)"

section \<open>Flushing the dirty window\<close>

type_synonym rect = "int \<times> int \<times> int \<times> int"

text \<open>
  Modelled from the spec: \<open>_resetDirtyWindow\<close> is a method of the base class
  \<open>Adafruit_GrayOLED\<close>, which is not under src/. Sections 3 and 4.2 of the spec say that it
  puts the window in "an empty/sentinel state (e.g., x1>x2 or using max/min sentinels)"
  and fix no values, so the sentinel rectangle \<open>(x1, y1, x2, y2)\<close> is a parameter.
\<close>

definition resetDirtyWindow :: "rect \<Rightarrow> ssd1315 \<Rightarrow> ssd1315" where
  "resetDirtyWindow e s =
     (case e of (ex1, ey1, ex2, ey2) \<Rightarrow>
        s\<lparr>window_x1 := ex1, window_y1 := ey1, window_x2 := ex2, window_y2 := ey2\<rparr>)"

text \<open>
  Modelled from the spec: a sentinel of the max/min kind for a display. The minima start
  at or above every coordinate a clipped run can have, the maxima at or below, and the
  rectangle is empty (\<open>x2 < x1\<close>).
\<close>

definition empty_sentinel :: "ssd1315 \<Rightarrow> rect \<Rightarrow> bool" where
  "empty_sentinel s e =
     (case e of (ex1, ey1, ex2, ey2) \<Rightarrow>
        WIDTH s - 1 \<le> ex1 \<and> HEIGHT s - 1 \<le> ey1 \<and> ex2 \<le> 0 \<and> ey2 \<le> 0 \<and> ex2 < ex1)"

text \<open>
  \<open>buffer.subarray (b, e)\<close> of a typed array: a negative bound counts from the end, both
  bounds are clamped to the array, and an inverted range is empty.
\<close>

definition subarray :: "'a list \<Rightarrow> int \<Rightarrow> int \<Rightarrow> 'a list" where
  "subarray xs b e =
     (let n = int (length xs);
          rb = (if b < 0 then max (n + b) 0 else min b n);
          re = (if e < 0 then max (n + e) 0 else min e n)
      in take (nat (re - rb)) (drop (nat rb) xs))"

text \<open>\<open>for (page = pageStart; page < pageEnd; page++, index += w)\<close> of \<open>display\<close>.\<close>

function display_pages :: "int \<Rightarrow> int \<Rightarrow> int \<Rightarrow> int \<Rightarrow> int \<Rightarrow> ssd1315 \<Rightarrow> ssd1315" where
  "display_pages page pageEnd index colStart to_write s =
     (if page < pageEnd then
        display_pages (page + 1) pageEnd (index + WIDTH s) colStart to_write
          (oled_data (subarray (buffer s) index (index + to_write))
             (oled_commandList
                [SSD1315_PAGE_ADDR, page, page + 1,
                 SSD1315_COLUMN_ADDR, colStart, colStart + to_write - 1] s))
      else s)"
  by pat_completeness auto
termination
  by (relation "measure (\<lambda>(page, pageEnd, index, colStart, to_write, s). nat (pageEnd - page))") auto

declare display_pages.simps [simp del]

definition display :: "rect \<Rightarrow> ssd1315 \<Rightarrow> ssd1315" where
  "display e s =
     (let w = WIDTH s;
          colStart = window_x1 s;
          to_write = (window_x2 s - window_x1 s) + 1;
          pageStart = toInt_div (window_y1 s) 8;
          pageEnd = toInt_div (window_y2 s) 8 + 1;
          index = colStart + pageStart * w;
          s' = (if to_write > 0
                then display_pages pageStart pageEnd index colStart to_write s
                else s)
      in resetDirtyWindow e s')"

section \<open>Startup commands\<close>

text \<open>
  Lines 245-296 of \<open>begin\<close>: the command lists sent before \<open>setRotation\<close>. What follows
  in the source (rotation, splash bitmap, flush, display-on) goes through methods of the
  base class and only adds later events.
\<close>

definition begin_init :: "ssd1315 \<Rightarrow> ssd1315" where
  "begin_init s =
     (let vcc = vccSelection s;
          s1 = oled_commandList SSD1315_INIT_SEQ_1 s;
          s2 = oled_commandList [SSD1315_SET_MULTIPLEX, js_and (HEIGHT s - 1) 0xFF] s1;
          s3 = oled_commandList SSD1315_INIT_SEQ_2 s2;
          displayOffset = display_offset s;
          startLine = start_line s;
          (comPins, contrast') =
            (if WIDTH s = 128 \<and> HEIGHT s = 32 then (0x02, 0x8F)
             else if WIDTH s = 128 \<and> HEIGHT s = 64 then
               (0x12, if SSD1315_EXTERNALVCC = vcc then 0x9F else 0xCF)
             else if WIDTH s = 96 \<and> HEIGHT s = 16 then
               (0x02, if SSD1315_EXTERNALVCC = vcc then 0x10 else 0xAF)
             else (0x02, 0x8F));
          s4 = s3\<lparr>contrast := contrast'\<rparr>;
          s5 = oled_commandList
                 [SSD1315_CHARGE_PUMP, if SSD1315_EXTERNALVCC = vcc then 0x10 else 0x14,
                  SSD1315_SET_DISPLAY_OFFSET, js_and displayOffset 0x3F,
                  js_and (js_or SSD1315_SET_DISPLAY_START_LINE_BASE (js_and startLine 0x3F)) 0xFF,
                  SSD1315_SET_COM_PINS, js_and comPins 0xFF,
                  SSD1315_SET_CONTRAST, js_and contrast' 0xFF,
                  SSD1315_SET_PRECHARGE, if SSD1315_EXTERNALVCC = vcc then 0x22 else 0xF1] s4
      in oled_commandList SSD1315_INIT_SEQ_3 s5)"

section \<open>Scrolling\<close>

definition startScrollInternal :: "ssd1315 \<Rightarrow> string \<Rightarrow> int \<Rightarrow> int \<Rightarrow> ssd1315" where
  "startScrollInternal s dir startPage stopPage =
     (let W = js_and (WIDTH s) 0xFF;
          H = js_and (HEIGHT s) 0xFF;
          frames = 0x07;
          verticalIncrement0 = min 0x01 H;
          s1 = oled_commandList
                 [SSD1315_DEACTIVATE_SCROLL, SSD1315_SET_VERTICAL_SCROLL_AREA, 0x00, H] s;
          (horizontalIncrement, verticalIncrement, scrollCommand) =
            (if dir = ''left'' then
               (0x01, 0x00, SSD1315_VERTICAL_AND_LEFT_HORIZONTAL_SCROLL)
             else if dir = ''right'' then
               (0x01, 0x00, SSD1315_VERTICAL_AND_RIGHT_HORIZONTAL_SCROLL)
             else if dir = ''left diagonal'' then
               (0x01, verticalIncrement0, SSD1315_VERTICAL_AND_LEFT_HORIZONTAL_SCROLL)
             else if dir = ''right diagonal'' then
               (0x01, verticalIncrement0, SSD1315_VERTICAL_AND_RIGHT_HORIZONTAL_SCROLL)
             else if dir = ''up'' then
               (0x00, verticalIncrement0, SSD1315_VERTICAL_AND_LEFT_HORIZONTAL_SCROLL)
             else (0x01, verticalIncrement0, SSD1315_VERTICAL_AND_LEFT_HORIZONTAL_SCROLL))
      in oled_commandList
           [scrollCommand, horizontalIncrement, js_and startPage 0x07, js_and frames 0x07,
            js_and stopPage 0x07, js_and verticalIncrement 0x7F, 0x00, js_and (W - 1) 0xFF,
            SSD1315_ACTIVATE_SCROLL] s1)"

definition startscrollright :: "ssd1315 \<Rightarrow> int \<Rightarrow> int \<Rightarrow> ssd1315" where
  "startscrollright s start stop = startScrollInternal s ''right'' start stop"

definition startscrollleft :: "ssd1315 \<Rightarrow> int \<Rightarrow> int \<Rightarrow> ssd1315" where
  "startscrollleft s start stop = startScrollInternal s ''left'' start stop"

definition startscrolldiagright :: "ssd1315 \<Rightarrow> int \<Rightarrow> int \<Rightarrow> ssd1315" where
  "startscrolldiagright s start stop = startScrollInternal s ''right diagonal'' start stop"

definition startscrolldiagleft :: "ssd1315 \<Rightarrow> int \<Rightarrow> int \<Rightarrow> ssd1315" where
  "startscrolldiagleft s start stop = startScrollInternal s ''left diagonal'' start stop"

definition startscrollup :: "ssd1315 \<Rightarrow> int \<Rightarrow> int \<Rightarrow> ssd1315" where
  "startscrollup s start stop = startScrollInternal s ''up'' start stop"

text \<open>
  The scroll command list is the last event of the log. Its second byte is the
  horizontal increment and its sixth the vertical increment (line 836-846).
\<close>

definition last_command :: "ssd1315 \<Rightarrow> int list" where
  "last_command s = (case last (bus s) of CommandList cs \<Rightarrow> cs | DataBlock bs \<Rightarrow> [])"

definition horizontal_increment_byte :: "ssd1315 \<Rightarrow> int" where
  "horizontal_increment_byte s = last_command s ! 1"

definition vertical_increment_byte :: "ssd1315 \<Rightarrow> int" where
  "vertical_increment_byte s = last_command s ! 5"

text \<open>A small display used to run the definitions on concrete inputs.\<close>

definition blank :: "int \<Rightarrow> int \<Rightarrow> int \<Rightarrow> ssd1315" where
  "blank w h r =
     \<lparr>WIDTH = w, HEIGHT = h, rotation = r, vccSelection = SSD1315_SWITCHCAPVCC,
      contrast = 0x8F, display_offset = 0, start_line = 0,
      buffer = replicate (nat (w * toInt_div (h + 7) 8)) 0,
      window_x1 = w, window_y1 = h, window_x2 = - 1, window_y2 = - 1,
      bus = [], touched = []\<rparr>"

section \<open>The rotation table of the spec\<close>

datatype primitive = Horizontal | Vertical

text \<open>
  Section 4.3 of the spec, written from its table and not from the code: what a
  horizontal run and what a vertical run of length \<open>len\<close> at \<open>(x, y)\<close> becomes under
  rotation \<open>r\<close> (0, 1, 2, 3 for 0, 90, 180 and 270 degrees), as the primitive to call
  and its coordinates.
\<close>

definition rotation_table_h ::
  "int \<Rightarrow> int \<Rightarrow> int \<Rightarrow> int \<Rightarrow> int \<Rightarrow> int \<Rightarrow> primitive \<times> int \<times> int" where
  "rotation_table_h r width height x y len =
     (if r = 1 then (Vertical, width - 1 - y, x)
      else if r = 2 then (Horizontal, (width - 1 - x) - (len - 1), height - 1 - y)
      else if r = 3 then (Vertical, y, (height - 1 - x) - (len - 1))
      else (Horizontal, x, y))"

definition rotation_table_v ::
  "int \<Rightarrow> int \<Rightarrow> int \<Rightarrow> int \<Rightarrow> int \<Rightarrow> int \<Rightarrow> primitive \<times> int \<times> int" where
  "rotation_table_v r width height x y len =
     (if r = 1 then (Horizontal, (width - 1 - y) - (len - 1), x)
      else if r = 2 then (Vertical, width - 1 - x, (height - 1 - y) - (len - 1))
      else if r = 3 then (Horizontal, y, height - 1 - x)
      else (Vertical, x, y))"

fun run_primitive :: "ssd1315 \<Rightarrow> primitive \<times> int \<times> int \<Rightarrow> int \<Rightarrow> int \<Rightarrow> ssd1315" where
  "run_primitive s (Horizontal, x, y) len color = drawFastHLineInternal s x y len color"
| "run_primitive s (Vertical, x, y) len color = drawFastVLineInternal s x y len color"

definition in_int32 :: "int \<Rightarrow> bool" where
  "in_int32 v \<longleftrightarrow> - (2 ^ 31) \<le> v \<and> v < 2 ^ 31"

section \<open>Pixels and naive references\<close>

text \<open>
  Section 3 of the spec: the byte at \<open>x + floor (y / 8) * width\<close> holds the pixels of
  column \<open>x\<close> in rows \<open>8 * floor (y / 8)\<close> to \<open>8 * floor (y / 8) + 7\<close>, and bit \<open>y & 7\<close> of it
  is the pixel at row \<open>y\<close>.
\<close>

definition pixel_index :: "int \<Rightarrow> int \<Rightarrow> int \<Rightarrow> nat" where
  "pixel_index width x y = nat (x + (y div 8) * width)"

definition pixel_of :: "int \<Rightarrow> 8 word list \<Rightarrow> int \<Rightarrow> int \<Rightarrow> bool" where
  "pixel_of width buf x y = bit (buf ! pixel_index width x y) (nat (y mod 8))"

definition pixel :: "ssd1315 \<Rightarrow> int \<Rightarrow> int \<Rightarrow> bool" where
  "pixel s x y = pixel_of (WIDTH s) (buffer s) x y"

text \<open>The number of pages, and the pixels that have a bit in the buffer.\<close>

definition pages :: "ssd1315 \<Rightarrow> int" where
  "pages s = toInt_div (HEIGHT s + 7) 8"

definition in_buffer :: "ssd1315 \<Rightarrow> int \<Rightarrow> int \<Rightarrow> bool" where
  "in_buffer s x y \<longleftrightarrow> 0 \<le> x \<and> x < WIDTH s \<and> 0 \<le> y \<and> y < 8 * pages s"

text \<open>What a colour does to one pixel: set for WHITE, clear for BLACK, toggle for INVERSE.\<close>

definition color_bit :: "int \<Rightarrow> bool \<Rightarrow> bool" where
  "color_bit color b =
     (if color = SSD1315_WHITE then True
      else if color = SSD1315_BLACK then False
      else if color = SSD1315_INVERSE then \<not> b
      else b)"

text \<open>
  The naive reference for a run: the bit operation of the colour applied to one pixel
  at a time, over the pixels of the run that lie inside \<open>[0, WIDTH) x [0, HEIGHT)\<close>.
\<close>

definition draw_pixel_naive :: "int \<Rightarrow> int \<Rightarrow> 8 word list \<Rightarrow> int \<times> int \<Rightarrow> 8 word list" where
  "draw_pixel_naive width color buf p =
     (case p of (x, y) \<Rightarrow>
        let i = pixel_index width x y; k = nat (y mod 8)
        in if color = SSD1315_WHITE then buf[i := set_bit k (buf ! i)]
           else if color = SSD1315_BLACK then buf[i := unset_bit k (buf ! i)]
           else if color = SSD1315_INVERSE then buf[i := flip_bit k (buf ! i)]
           else buf)"

definition vline_pixels :: "ssd1315 \<Rightarrow> int \<Rightarrow> int \<Rightarrow> int \<Rightarrow> (int \<times> int) list" where
  "vline_pixels s x y h =
     map (\<lambda>y'. (x, y'))
       (filter (\<lambda>y'. 0 \<le> x \<and> x < WIDTH s \<and> 0 \<le> y' \<and> y' < HEIGHT s) [y .. y + h - 1])"

definition naive_vline :: "ssd1315 \<Rightarrow> int \<Rightarrow> int \<Rightarrow> int \<Rightarrow> int \<Rightarrow> 8 word list" where
  "naive_vline s x y h color =
     foldl (draw_pixel_naive (WIDTH s) color) (buffer s) (vline_pixels s x y h)"

section \<open>Updates of a row segment and of a column of bytes\<close>

text \<open>
  Two ways to describe a buffer after a loop, used to state what the loops compute:
  \<open>f\<close> applied to the bytes at indices \<open>i, ..., i + n - 1\<close>, and \<open>g q\<close> applied to the
  byte of column \<open>x\<close> in page \<open>q\<close>, for every page.
\<close>

definition range_upd :: "int \<Rightarrow> nat \<Rightarrow> (8 word \<Rightarrow> 8 word) \<Rightarrow> 8 word list \<Rightarrow> 8 word list" where
  "range_upd i n f buf =
     map (\<lambda>j. if i \<le> int j \<and> int j < i + int n then f (buf ! j) else buf ! j) [0..<length buf]"

definition col_upd :: "int \<Rightarrow> int \<Rightarrow> (int \<Rightarrow> 8 word \<Rightarrow> 8 word) \<Rightarrow> 8 word list \<Rightarrow> 8 word list" where
  "col_upd width x g buf =
     map (\<lambda>j. if int j mod width = x then g (int j div width) (buf ! j) else buf ! j)
       [0..<length buf]"

text \<open>The effect of the three-way switch and of the whole-byte loop on one byte.\<close>

definition part_byte :: "int \<Rightarrow> 8 word \<Rightarrow> 8 word \<Rightarrow> 8 word" where
  "part_byte color msk b =
     (if color = SSD1315_WHITE then b OR msk
      else if color = SSD1315_BLACK then b AND NOT msk
      else if color = SSD1315_INVERSE then b XOR msk
      else b)"

definition whole_byte :: "int \<Rightarrow> 8 word \<Rightarrow> 8 word" where
  "whole_byte color b =
     (if color = SSD1315_INVERSE then b XOR 0xFF
      else if color \<noteq> SSD1315_BLACK then 0xFF else 0x00)"

text \<open>The indices the horizontal loop subscripts: none for a colour outside the switch.\<close>

definition hline_touched :: "int \<Rightarrow> int \<Rightarrow> nat \<Rightarrow> int list" where
  "hline_touched color i n =
     (if color = SSD1315_WHITE \<or> color = SSD1315_BLACK \<or> color = SSD1315_INVERSE
      then map (\<lambda>k. i + int k) [0..<n] else [])"

text \<open>
  What the vertical primitive does to the byte of its column in page \<open>q\<close>, for a run of
  \<open>h > 0\<close> rows from row \<open>y \<ge> 0\<close>: the leading partial byte, then the whole bytes, then
  the trailing partial byte. \<open>rest_effect\<close> is the part after the leading byte, for \<open>r\<close>
  remaining rows that start at the top of page \<open>p\<close>.
\<close>

definition first_mask :: "int \<Rightarrow> int \<Rightarrow> 8 word" where
  "first_mask md h =
     (let md1 = 8 - md;
          msk0 = SSD1315_VLINE_PRE_MASK ! nat md1
      in if h < md1 then msk0 AND drop_bit (nat (md1 - h)) 0xFF else msk0)"

definition rest_effect :: "int \<Rightarrow> int \<Rightarrow> int \<Rightarrow> int \<Rightarrow> 8 word \<Rightarrow> 8 word" where
  "rest_effect color p r q b =
     (if 0 \<le> r \<and> p \<le> q \<and> q < p + r div 8 then whole_byte color b
      else if 0 < r \<and> r mod 8 \<noteq> 0 \<and> q = p + r div 8
        then part_byte color (SSD1315_VLINE_POST_MASK ! nat (r mod 8)) b
      else b)"

definition vline_effect :: "int \<Rightarrow> int \<Rightarrow> int \<Rightarrow> int \<Rightarrow> 8 word \<Rightarrow> 8 word" where
  "vline_effect color y h q b =
     (if y mod 8 \<noteq> 0 then
        (if q = y div 8 then part_byte color (first_mask (y mod 8) h) b
         else rest_effect color (y div 8 + 1) (h - (8 - y mod 8)) q b)
      else rest_effect color (y div 8) h q b)"

text \<open>
  What the whole-byte loop does to one pixel: it toggles for INVERSE, clears for BLACK
  and sets for every other colour value.
\<close>

definition whole_bit :: "int \<Rightarrow> bool \<Rightarrow> bool" where
  "whole_bit color b = (if color = SSD1315_INVERSE then \<not> b else color \<noteq> SSD1315_BLACK)"

section \<open>Sequences of draws\<close>

text \<open>
  A call of one of the two primitives with its arguments \<open>x\<close>, \<open>y\<close>, length and colour, and
  a sequence of such calls applied in order.
\<close>

datatype draw = HRun int int int int | VRun int int int int

fun apply_draw :: "ssd1315 \<Rightarrow> draw \<Rightarrow> ssd1315" where
  "apply_draw s (HRun x y w color) = drawFastHLineInternal s x y w color"
| "apply_draw s (VRun x y h color) = drawFastVLineInternal s x y h color"

definition apply_draws :: "ssd1315 \<Rightarrow> draw list \<Rightarrow> ssd1315" where
  "apply_draws s ds = foldl apply_draw s ds"

text \<open>
  The clipped rectangle \<open>(x1, y1, x2, y2)\<close> of a run, inclusive, or \<open>None\<close> when nothing of
  the run lies inside \<open>[0, WIDTH) x [0, HEIGHT)\<close>; the union of two rectangles and the
  bounding box of a list of rectangles (min of mins, max of maxes), as in section 4.2 of
  the spec.
\<close>

fun clip_rect :: "ssd1315 \<Rightarrow> draw \<Rightarrow> rect option" where
  "clip_rect s (HRun x y w color) =
     (if 0 \<le> y \<and> y < HEIGHT s \<and> max x 0 < min (x + w) (WIDTH s)
      then Some (max x 0, y, min (x + w) (WIDTH s) - 1, y) else None)"
| "clip_rect s (VRun x y h color) =
     (if 0 \<le> x \<and> x < WIDTH s \<and> max y 0 < min (y + h) (HEIGHT s)
      then Some (x, max y 0, x, min (y + h) (HEIGHT s) - 1) else None)"

definition dirty_window :: "ssd1315 \<Rightarrow> rect" where
  "dirty_window s = (window_x1 s, window_y1 s, window_x2 s, window_y2 s)"

fun union_rect :: "rect \<Rightarrow> rect \<Rightarrow> rect" where
  "union_rect (a1, b1, a2, b2) (c1, d1, c2, d2) = (min a1 c1, min b1 d1, max a2 c2, max b2 d2)"

definition bounding_box :: "rect list \<Rightarrow> rect" where
  "bounding_box rs =
     (Min (set (map (\<lambda>(x1, y1, x2, y2). x1) rs)), Min (set (map (\<lambda>(x1, y1, x2, y2). y1) rs)),
      Max (set (map (\<lambda>(x1, y1, x2, y2). x2) rs)), Max (set (map (\<lambda>(x1, y1, x2, y2). y2) rs)))"

text \<open>
  What one page of a flush puts on the bus, as the source builds it: the command list
  with the page range \<open>page, page + 1\<close> and the column range, then the slice of the buffer
  from \<open>index\<close>.
\<close>

definition page_events :: "ssd1315 \<Rightarrow> int \<Rightarrow> int \<Rightarrow> int \<Rightarrow> int \<Rightarrow> bus_event list" where
  "page_events s colStart to_write page index =
     [CommandList [SSD1315_PAGE_ADDR, page, page + 1,
                   SSD1315_COLUMN_ADDR, colStart, colStart + to_write - 1],
      DataBlock (subarray (buffer s) index (index + to_write))]"

section \<open>Facts about the JavaScript operators\<close>

lemma word_of_int_sint32: "(word_of_int (sint (w :: 32 word)) :: 32 word) = w"
  by simp

lemma ToInt32_int: "ToInt32 v = signed_take_bit 31 v"
  by (simp add: ToInt32_def sint_sbintrunc')

lemma js_and_int: "js_and a b = signed_take_bit 31 (a AND b)"
  by (simp add: js_and_def sint_sbintrunc' flip: of_int_and_eq)

lemma js_or_int: "js_or a b = signed_take_bit 31 (a OR b)"
  by (simp add: js_or_def sint_sbintrunc' flip: of_int_or_eq)

lemma xor_swap_eq: "xor_swap x y = (ToInt32 y, ToInt32 x)"
  by (simp add: xor_swap_def js_xor_def ToInt32_def Let_def ac_simps)

lemma ToInt32_id: "- (2 ^ 31) \<le> v \<Longrightarrow> v < 2 ^ 31 \<Longrightarrow> ToInt32 v = v"
  by (simp add: ToInt32_int signed_take_bit_int_eq_self)

lemma js_and_low_bits: "n < 32 \<Longrightarrow> js_and a (2 ^ n - 1) = a mod 2 ^ n"
proof -
  assume n: "n < 32"
  have eq: "a AND (2 ^ n - 1) = a mod 2 ^ n"
    by (simp add: take_bit_eq_mod flip: take_bit_eq_mask mask_eq_exp_minus_1)
  have le: "(2::int) ^ n \<le> 2 ^ 31" using n by (intro power_increasing) simp_all
  have "0 \<le> a mod 2 ^ n" "a mod 2 ^ n < 2 ^ n" by simp_all
  with le have "- (2 ^ 31) \<le> a mod 2 ^ n" "a mod 2 ^ n < 2 ^ 31" by linarith+
  then have "signed_take_bit 31 (a mod 2 ^ n) = a mod 2 ^ n"
    by (rule signed_take_bit_int_eq_self)
  with eq show ?thesis by (simp add: js_and_int)
qed

lemma js_and_7: "js_and y 7 = y mod 8"
  using js_and_low_bits [of 3 y] by simp

lemma js_and_255: "js_and y 255 = y mod 256"
  using js_and_low_bits [of 8 y] by simp

lemma js_and_127: "js_and y 127 = y mod 128"
  using js_and_low_bits [of 7 y] by simp

lemma js_and_63: "js_and y 63 = y mod 64"
  using js_and_low_bits [of 6 y] by simp

lemma js_or_start_line: "js_and (js_or 64 (js_and v 63)) 255 = 64 + v mod 64"
proof -
  have "\<not> bit (push_bit 6 (1::int)) n \<or> \<not> bit (take_bit 6 v) n" for n
    by (auto simp only: bit_push_bit_iff bit_take_bit_iff)
  then have "push_bit 6 (1::int) + take_bit 6 v = push_bit 6 1 OR take_bit 6 v"
    by (rule disjunctive_add)
  then have eq: "64 OR v mod 64 = 64 + v mod 64"
    by (simp add: take_bit_eq_mod)
  have "0 \<le> v mod 64" "v mod 64 < 64" by simp_all
  then have r: "- (2 ^ 31) \<le> 64 + v mod 64" "64 + v mod 64 < 2 ^ 31" "(64 + v mod 64) mod 256 = 64 + v mod 64"
    by simp_all
  have "js_or 64 (v mod 64) = 64 + v mod 64"
    using signed_take_bit_int_eq_self [OF r(1,2)] by (simp add: js_or_int eq)
  with r(3) show ?thesis by (simp add: js_and_255 js_and_63)
qed

lemmas cmd_defs =
  SSD1315_COLUMN_ADDR_def SSD1315_PAGE_ADDR_def SSD1315_MEMORY_MODE_def
  SSD1315_VERTICAL_AND_RIGHT_HORIZONTAL_SCROLL_def SSD1315_VERTICAL_AND_LEFT_HORIZONTAL_SCROLL_def
  SSD1315_DEACTIVATE_SCROLL_def SSD1315_ACTIVATE_SCROLL_def SSD1315_SET_DISPLAY_START_LINE_BASE_def
  SSD1315_SET_CONTRAST_def SSD1315_CHARGE_PUMP_def SSD1315_SET_VERTICAL_SCROLL_AREA_def
  SSD1315_DISPLAY_ALL_ON_RESUME_def SSD1315_NORMAL_DISPLAY_def SSD1315_SET_MULTIPLEX_def
  SSD1315_DISPLAY_OFF_def SSD1315_SEG_REMAP_FLIP_def SSD1315_COM_SCAN_DEC_def
  SSD1315_SET_DISPLAY_OFFSET_def SSD1315_SET_DISPLAY_CLOCK_DIV_def SSD1315_SET_PRECHARGE_def
  SSD1315_SET_COM_PINS_def SSD1315_SET_VCOM_DETECT_def SSD1315_EXTERNALVCC_def
  SSD1315_SWITCHCAPVCC_def SSD1315_INIT_SEQ_1_def SSD1315_INIT_SEQ_2_def SSD1315_INIT_SEQ_3_def

lemmas color_defs = SSD1315_BLACK_def SSD1315_WHITE_def SSD1315_INVERSE_def

section \<open>Division by eight\<close>

text \<open>Rows are grouped in pages of eight: quotient and remainder made explicit.\<close>

lemma split8:
  obtains d m where "(r::int) = 8 * d + m" "0 \<le> m" "m < 8" "r div 8 = d" "r mod 8 = m"
proof -
  have "r = 8 * (r div 8) + r mod 8" "0 \<le> r mod 8" "r mod 8 < 8" by simp_all
  then show ?thesis using that by blast
qed

lemma div8_less_iff: "(q::int) < r div 8 \<longleftrightarrow> 8 * q + 8 \<le> r"
proof -
  obtain d m where r: "r = 8 * d + m" "0 \<le> m" "m < 8" "r div 8 = d" by (rule split8)
  show ?thesis unfolding r(4) using r(1-3) by linarith
qed

lemma div8_le_iff: "(q::int) \<le> r div 8 \<longleftrightarrow> 8 * q \<le> r"
proof -
  obtain d m where r: "r = 8 * d + m" "0 \<le> m" "m < 8" "r div 8 = d" by (rule split8)
  show ?thesis unfolding r(4) using r(1-3) by linarith
qed

lemma div8_ge_iff: "r div 8 \<le> (q::int) \<longleftrightarrow> r < 8 * q + 8"
proof -
  obtain d m where r: "r = 8 * d + m" "0 \<le> m" "m < 8" "r div 8 = d" by (rule split8)
  show ?thesis unfolding r(4) using r(1-3) by linarith
qed

lemma div8_eqI: "8 * q \<le> r \<Longrightarrow> r < 8 * q + 8 \<Longrightarrow> r div 8 = (q::int)"
  using div8_le_iff [of q r] div8_ge_iff [of r q] by simp

lemma div8_bounds: "8 * ((y::int) div 8) \<le> y" "y < 8 * (y div 8) + 8"
proof -
  obtain d m where r: "y = 8 * d + m" "0 \<le> m" "m < 8" "y div 8 = d" by (rule split8)
  show "8 * (y div 8) \<le> y" unfolding r(4) using r(1-3) by linarith
  show "y < 8 * (y div 8) + 8" unfolding r(4) using r(1-3) by linarith
qed

lemma div8_ceil_above:
  assumes "8 \<le> (r::int)" "r mod 8 \<noteq> 0"
  shows "r div 8 < (r + 7) div 8"
proof -
  obtain d m where r: "r = 8 * d + m" "0 \<le> m" "m < 8" "r div 8 = d" "r mod 8 = m"
    by (rule split8)
  from assms(2) r have "8 * d + 8 \<le> r + 7" by linarith
  then show ?thesis unfolding r(4) by (simp only: div8_less_iff)
qed

lemma div8_aligned_sum:
  assumes "(y::int) mod 8 = 0"
  shows "y div 8 + (h + 7) div 8 = (y + h + 7) div 8"
proof -
  obtain a m where y: "y = 8 * a + m" "0 \<le> m" "m < 8" "y div 8 = a" "y mod 8 = m"
    by (rule split8)
  obtain b n where h: "h + 7 = 8 * b + n" "0 \<le> n" "n < 8" "(h + 7) div 8 = b"
    by (rule split8)
  from assms y have m: "m = 0" by simp
  have "(y + h + 7) div 8 = a + b"
  proof (rule div8_eqI)
    show "8 * (a + b) \<le> y + h + 7" using y(1) m h(1-3) by (simp add: algebra_simps)
    show "y + h + 7 < 8 * (a + b) + 8" using y(1) m h(1-3) by (simp add: algebra_simps)
  qed
  then show ?thesis by (simp only: y(4) h(4))
qed

lemma div8_unaligned_sum:
  "(y::int) div 8 + 1 + (h - (8 - y mod 8) + 7) div 8 = (y + h + 7) div 8"
proof -
  obtain a m where y: "y = 8 * a + m" "0 \<le> m" "m < 8" "y div 8 = a" "y mod 8 = m"
    by (rule split8)
  obtain b n where h: "h - (8 - m) + 7 = 8 * b + n" "0 \<le> n" "n < 8" "(h - (8 - m) + 7) div 8 = b"
    by (rule split8)
  have "(y + h + 7) div 8 = a + 1 + b"
  proof (rule div8_eqI)
    show "8 * (a + 1 + b) \<le> y + h + 7" using y(1) h(1-3) by (simp add: algebra_simps)
    show "y + h + 7 < 8 * (a + 1 + b) + 8" using y(1) h(1-3) by (simp add: algebra_simps)
  qed
  then show ?thesis by (simp only: y(4,5) h(4))
qed

lemma div8_first_page: "0 < (h::int) \<Longrightarrow> y div 8 < (y + h + 7) div 8"
proof -
  assume h: "0 < h"
  from div8_bounds(1) [of y] h have "8 * (y div 8) + 8 \<le> y + h + 7" by linarith
  then show ?thesis by (simp only: div8_less_iff)
qed

lemma same_row_int: "((y::int) div 8 = b div 8 \<and> y mod 8 = b mod 8) \<longleftrightarrow> y = b"
proof
  assume a: "y div 8 = b div 8 \<and> y mod 8 = b mod 8"
  have "y = 8 * (y div 8) + y mod 8" by simp
  also have "\<dots> = 8 * (b div 8) + b mod 8" by (simp only: a)
  also have "\<dots> = b" by simp
  finally show "y = b" .
next
  assume "y = b"
  then show "y div 8 = b div 8 \<and> y mod 8 = b mod 8" by simp
qed

text \<open>The page conditions of \<open>rest_effect\<close>.\<close>

lemma rest_whole:
  assumes "0 \<le> r \<and> p \<le> q \<and> q < p + r div 8"
  shows "(p \<le> q \<and> 8 * q + 8 \<le> 8 * p + (r::int)) = True"
proof -
  from assms have "q - p < r div 8" by linarith
  then have "8 * (q - p) + 8 \<le> r" by (simp only: div8_less_iff)
  then have "8 * q + 8 \<le> 8 * p + r" by (simp add: algebra_simps)
  with assms show ?thesis by simp
qed

lemma rest_last_not_whole:
  assumes "0 < r \<and> r mod 8 \<noteq> 0 \<and> q = p + r div 8"
  shows "(p \<le> q \<and> 8 * q + 8 \<le> 8 * p + (r::int)) = False"
proof -
  from assms have q: "q = p + r div 8" by simp
  have "\<not> 8 * q + 8 \<le> 8 * p + r" unfolding q using div8_bounds(2) [of r]
    by (simp add: algebra_simps)
  then show ?thesis by simp
qed

lemma rest_last_run:
  assumes "0 < r \<and> r mod 8 \<noteq> 0 \<and> q = p + r div 8"
  shows "(p \<le> q \<and> 8 * q + int k < 8 * p + (r::int)) = (k < nat (r mod 8))"
proof -
  obtain d m where r: "r = 8 * d + m" "0 \<le> m" "m < 8" "r div 8 = d" "r mod 8 = m"
    by (rule split8)
  from assms r have q: "q = p + d" and pos: "0 < 8 * d + m" by simp_all
  from pos r(3) have d: "0 \<le> d" by linarith
  then have a: "(p \<le> q) = True" unfolding q by simp
  have b: "(8 * q + int k < 8 * p + r) = (int k < m)" unfolding q r(1)
    by (auto simp add: algebra_simps)
  have c: "(k < nat m) = (int k < m)" by (simp only: zless_nat_eq_int_zless)
  show ?thesis unfolding r(5) a b c by simp
qed

lemma rest_none_not_whole:
  assumes "\<not> (0 \<le> r \<and> p \<le> q \<and> q < p + r div 8)"
  shows "(p \<le> q \<and> 8 * q + 8 \<le> 8 * p + (r::int)) = False"
proof -
  have False if pq: "p \<le> q" and w: "8 * q + 8 \<le> 8 * p + r"
  proof -
    from pq w have r: "0 \<le> r" by linarith
    from w have "8 * (q - p) + 8 \<le> r" by (simp add: algebra_simps)
    then have "q - p < r div 8" by (simp only: div8_less_iff)
    then have "q < p + r div 8" by linarith
    with r pq assms show False by simp
  qed
  then show ?thesis by blast
qed

lemma rest_none_not_run:
  assumes n1: "\<not> (0 \<le> r \<and> p \<le> q \<and> q < p + r div 8)"
    and n2: "\<not> (0 < r \<and> r mod 8 \<noteq> 0 \<and> q = p + r div 8)"
  shows "(p \<le> q \<and> 8 * q + int k < 8 * p + (r::int)) = False"
proof -
  obtain d m where r: "r = 8 * d + m" "0 \<le> m" "m < 8" "r div 8 = d" "r mod 8 = m"
    by (rule split8)
  have False if pq: "p \<le> q" and w: "8 * q + int k < 8 * p + r"
  proof -
    from pq w have rp: "0 < r" by linarith
    with n1 pq have ge: "p + d \<le> q" unfolding r(4) by linarith
    from w r(1,3) have "8 * q < 8 * p + 8 * d + 8" by linarith
    then have "q < p + d + 1" by linarith
    with ge have q: "q = p + d" by linarith
    from w have "int k < m" unfolding q r(1) by (simp add: algebra_simps)
    then have "m \<noteq> 0" by linarith
    with rp q n2 show False unfolding r(4,5) by simp
  qed
  then show ?thesis by blast
qed

text \<open>The page conditions of \<open>vline_effect\<close>.\<close>

lemma aligned_whole:
  assumes "(y::int) mod 8 = 0"
  shows "(y div 8 \<le> q \<and> 8 * q + 8 \<le> 8 * (y div 8) + h) = (y \<le> 8 * q \<and> 8 * q + 8 \<le> y + h)"
proof -
  obtain a m where y: "y = 8 * a + m" "0 \<le> m" "m < 8" "y div 8 = a" "y mod 8 = m"
    by (rule split8)
  from assms y have ya: "y = 8 * a" by simp
  have c1: "(a \<le> q) = (y \<le> 8 * q)" unfolding ya by linarith
  have c2: "(8 * q + 8 \<le> 8 * a + h) = (8 * q + 8 \<le> y + h)" unfolding ya by simp
  show ?thesis unfolding y(4) c1 c2 by (rule refl)
qed

lemma aligned_run:
  assumes "(y::int) mod 8 = 0" and k: "k < (8::nat)"
  shows "(y div 8 \<le> q \<and> 8 * q + int k < 8 * (y div 8) + h) =
         (y \<le> 8 * q + int k \<and> 8 * q + int k < y + h)"
proof -
  obtain a m where y: "y = 8 * a + m" "0 \<le> m" "m < 8" "y div 8 = a" "y mod 8 = m"
    by (rule split8)
  from assms y have ya: "y = 8 * a" by simp
  have c1: "(a \<le> q) = (y \<le> 8 * q + int k)" unfolding ya using k by linarith
  have c2: "(8 * q + int k < 8 * a + h) = (8 * q + int k < y + h)" unfolding ya by simp
  show ?thesis unfolding y(4) c1 c2 by (rule refl)
qed

lemma first_not_whole:
  assumes "(y::int) mod 8 \<noteq> 0" "q = y div 8"
  shows "(y \<le> 8 * q \<and> 8 * q + 8 \<le> y + h) = False"
proof -
  obtain a m where y: "y = 8 * a + m" "0 \<le> m" "m < 8" "y div 8 = a" "y mod 8 = m"
    by (rule split8)
  from assms y have "0 < m" "q = a" by simp_all
  then have "\<not> y \<le> 8 * q" unfolding y(1) by linarith
  then show ?thesis by simp
qed

lemma first_run:
  assumes "q = (y::int) div 8"
  shows "(y \<le> 8 * q + int k \<and> 8 * q + int k < y + h) = (y mod 8 \<le> int k \<and> int k < y mod 8 + h)"
proof -
  obtain a m where y: "y = 8 * a + m" "0 \<le> m" "m < 8" "y div 8 = a" "y mod 8 = m"
    by (rule split8)
  from assms y have q: "q = a" by simp
  have c1: "(y \<le> 8 * q + int k) = (m \<le> int k)" unfolding q y(1) by linarith
  have c2: "(8 * q + int k < y + h) = (int k < m + h)" unfolding q y(1) by linarith
  show ?thesis unfolding y(5) c1 c2 by (rule refl)
qed

lemma later_whole:
  assumes "(y::int) mod 8 \<noteq> 0" "q \<noteq> y div 8"
  shows "(y div 8 + 1 \<le> q \<and> 8 * q + 8 \<le> 8 * (y div 8 + 1) + (h - (8 - y mod 8))) =
         (y \<le> 8 * q \<and> 8 * q + 8 \<le> y + h)"
proof -
  obtain a m where y: "y = 8 * a + m" "0 \<le> m" "m < 8" "y div 8 = a" "y mod 8 = m"
    by (rule split8)
  from assms y have m: "0 < m" and q: "q \<noteq> a" by simp_all
  have c1: "(a + 1 \<le> q) = (y \<le> 8 * q)" unfolding y(1) using m y(3) by linarith
  have c2: "(8 * q + 8 \<le> 8 * (a + 1) + (h - (8 - m))) = (8 * q + 8 \<le> y + h)"
    unfolding y(1) by (auto simp add: algebra_simps)
  show ?thesis unfolding y(4,5) c1 c2 by (rule refl)
qed

lemma later_run:
  assumes "(y::int) mod 8 \<noteq> 0" "q \<noteq> y div 8" and k: "k < (8::nat)"
  shows "(y div 8 + 1 \<le> q \<and> 8 * q + int k < 8 * (y div 8 + 1) + (h - (8 - y mod 8))) =
         (y \<le> 8 * q + int k \<and> 8 * q + int k < y + h)"
proof -
  obtain a m where y: "y = 8 * a + m" "0 \<le> m" "m < 8" "y div 8 = a" "y mod 8 = m"
    by (rule split8)
  from assms y have m: "0 < m" and q: "q \<noteq> a" by simp_all
  have c1: "(a + 1 \<le> q) = (y \<le> 8 * q + int k)" unfolding y(1) using m y(3) k q by linarith
  have c2: "(8 * q + int k < 8 * (a + 1) + (h - (8 - m))) = (8 * q + int k < y + h)"
    unfolding y(1) by (auto simp add: algebra_simps)
  show ?thesis unfolding y(4,5) c1 c2 by (rule refl)
qed

section \<open>Startup: contrast and charge pump\<close>

text \<open>
  Claim C8. With \<open>WIDTH = 128\<close>, \<open>HEIGHT = 64\<close> and a \<open>vccSelection\<close> other than
  \<open>SSD1315_EXTERNALVCC\<close>, the startup commands carry the contrast byte \<open>0xCF\<close> after
  \<open>SSD1315_SET_CONTRAST\<close> and the parameter \<open>0x14\<close> after \<open>SSD1315_CHARGE_PUMP\<close>; with
  \<open>WIDTH = 128\<close>, \<open>HEIGHT = 32\<close> the contrast byte is \<open>0x8F\<close> whatever \<open>vccSelection\<close> is.
  The five command lists are given in full.
\<close>

theorem begin_contrast_and_charge_pump:
  "(WIDTH s = 128 \<and> HEIGHT s = 64 \<and> vccSelection s \<noteq> SSD1315_EXTERNALVCC \<longrightarrow>
      bus (begin_init s) = bus s @
        [CommandList [0xAE, 0xD5, 0x80],
         CommandList [0xA8, 63],
         CommandList [0x20, 0x00, 0xA1, 0xC8, 0xDB, 0x20],
         CommandList [SSD1315_CHARGE_PUMP, 0x14,
                      0xD3, display_offset s mod 64, 0x40 + start_line s mod 64,
                      0xDA, 0x12,
                      SSD1315_SET_CONTRAST, 0xCF,
                      0xD9, 0xF1],
         CommandList [0xA4, 0xA6, 0x2E]] \<and>
      contrast (begin_init s) = 0xCF) \<and>
   (WIDTH s = 128 \<and> HEIGHT s = 32 \<longrightarrow>
      bus (begin_init s) = bus s @
        [CommandList [0xAE, 0xD5, 0x80],
         CommandList [0xA8, 31],
         CommandList [0x20, 0x00, 0xA1, 0xC8, 0xDB, 0x20],
         CommandList [SSD1315_CHARGE_PUMP, if vccSelection s = SSD1315_EXTERNALVCC then 0x10 else 0x14,
                      0xD3, display_offset s mod 64, 0x40 + start_line s mod 64,
                      0xDA, 0x02,
                      SSD1315_SET_CONTRAST, 0x8F,
                      0xD9, if vccSelection s = SSD1315_EXTERNALVCC then 0x22 else 0xF1],
         CommandList [0xA4, 0xA6, 0x2E]] \<and>
      contrast (begin_init s) = 0x8F)"
proof -
  have start: "js_and (js_or 64 (js_and (start_line s) 63)) 255 = 64 + start_line s mod 64"
    by (rule js_or_start_line)
  have sixty: "js_and (display_offset s) 63 = display_offset s mod 64"
    by (rule js_and_63)
  have bytes: "js_and 63 255 = 63" "js_and 31 255 = 31" "js_and 18 255 = 18" "js_and 2 255 = 2"
    "js_and 207 255 = 207" "js_and 143 255 = 143"
    by (simp_all add: js_and_255)
  show ?thesis
    unfolding begin_init_def oled_commandList_def Let_def cmd_defs
    using start sixty bytes by auto
qed

theorem begin_contrast_and_charge_pump_witness:
  "bus (begin_init (blank 128 64 0)) =
     [CommandList [0xAE, 0xD5, 0x80],
      CommandList [0xA8, 63],
      CommandList [0x20, 0x00, 0xA1, 0xC8, 0xDB, 0x20],
      CommandList [0x8D, 0x14, 0xD3, 0, 0x40, 0xDA, 0x12, 0x81, 0xCF, 0xD9, 0xF1],
      CommandList [0xA4, 0xA6, 0x2E]] \<and>
   bus (begin_init ((blank 128 32 0)\<lparr>vccSelection := SSD1315_EXTERNALVCC\<rparr>)) =
     [CommandList [0xAE, 0xD5, 0x80],
      CommandList [0xA8, 31],
      CommandList [0x20, 0x00, 0xA1, 0xC8, 0xDB, 0x20],
      CommandList [0x8D, 0x10, 0xD3, 0, 0x40, 0xDA, 0x02, 0x81, 0x8F, 0xD9, 0x22],
      CommandList [0xA4, 0xA6, 0x2E]]"
  using begin_contrast_and_charge_pump [of "blank 128 64 0"]
    begin_contrast_and_charge_pump [of "(blank 128 32 0)\<lparr>vccSelection := SSD1315_EXTERNALVCC\<rparr>"]
  by (simp add: blank_def cmd_defs)

section \<open>Scroll increments\<close>

lemma scroll_vertical_byte: "js_and (min 1 (js_and h 255)) 127 = (if h mod 256 = 0 then 0 else 1)"
proof -
  have "0 \<le> h mod 256" by simp
  then have "min 1 (h mod 256) = (if h mod 256 = 0 then 0 else 1)" by auto
  then show ?thesis by (simp add: js_and_255 js_and_127)
qed

text \<open>
  Claim C3, as the code has it. For every start and stop page, \<open>startscrollleft\<close> and
  \<open>startscrollright\<close> send horizontal increment \<open>0x01\<close> (not \<open>0x00\<close>) and vertical
  increment \<open>0x00\<close>; \<open>startscrollup\<close> sends horizontal increment \<open>0x00\<close>; the two diagonal
  scrolls send horizontal increment 1, and vertical increment 1 whenever \<open>HEIGHT\<close> is not
  a multiple of 256 (the vertical increment is \<open>min 1 (HEIGHT & 0xFF)\<close>).
\<close>

theorem scroll_increment_bytes:
  "horizontal_increment_byte (startscrollleft s start stop) = 0x01 \<and>
   vertical_increment_byte (startscrollleft s start stop) = 0x00 \<and>
   horizontal_increment_byte (startscrollright s start stop) = 0x01 \<and>
   vertical_increment_byte (startscrollright s start stop) = 0x00 \<and>
   horizontal_increment_byte (startscrollup s start stop) = 0x00 \<and>
   horizontal_increment_byte (startscrolldiagleft s start stop) = 1 \<and>
   horizontal_increment_byte (startscrolldiagright s start stop) = 1 \<and>
   (HEIGHT s mod 256 \<noteq> 0 \<longrightarrow>
      vertical_increment_byte (startscrolldiagleft s start stop) = 1 \<and>
      vertical_increment_byte (startscrolldiagright s start stop) = 1)"
  unfolding startscrollleft_def startscrollright_def startscrollup_def
    startscrolldiagleft_def startscrolldiagright_def
    horizontal_increment_byte_def vertical_increment_byte_def last_command_def
    startScrollInternal_def oled_commandList_def Let_def
  using scroll_vertical_byte [of "HEIGHT s"] js_and_127 [of 0]
  by simp

theorem scroll_increment_bytes_witness:
  "horizontal_increment_byte (startscrollleft (blank 128 64 0) 0 15) = 1 \<and>
   vertical_increment_byte (startscrollleft (blank 128 64 0) 0 15) = 0 \<and>
   horizontal_increment_byte (startscrollup (blank 128 64 0) 0 15) = 0 \<and>
   vertical_increment_byte (startscrolldiagleft (blank 128 64 0) 0 15) = 1 \<and>
   vertical_increment_byte (startscrolldiagright (blank 128 64 0) 0 15) = 1"
  using scroll_increment_bytes [of "blank 128 64 0" 0 15]
  by (simp add: blank_def)

theorem scroll_left_horizontal_increment_counterexample:
  "horizontal_increment_byte (startscrollleft (blank 128 64 0) 0 15) \<noteq> 0x00"
  unfolding startscrollleft_def horizontal_increment_byte_def last_command_def
    startScrollInternal_def oled_commandList_def Let_def
  by simp

section \<open>Rotation: coordinates and dispatch\<close>

lemma xor_swap_int32: "in_int32 x \<Longrightarrow> in_int32 y \<Longrightarrow> xor_swap x y = (y, x)"
  by (simp add: xor_swap_eq ToInt32_id in_int32_def)

lemma blank_1_8: "blank 1 8 r = 
     \<lparr>WIDTH = 1, HEIGHT = 8, rotation = r, vccSelection = 2,
      contrast = 0x8F, display_offset = 0, start_line = 0,
      buffer = [0],
      window_x1 = 1, window_y1 = 8, window_x2 = - 1, window_y2 = - 1,
      bus = [], touched = []\<rparr>"
  by (simp add: blank_def toInt_div_def SSD1315_SWITCHCAPVCC_def)

lemma t1: "ToInt32 4294967296 = 0"
  by (simp add: ToInt32_int)

lemma bitlen_le: "a < 2 ^ k \<Longrightarrow> bitlen a \<le> k"
proof (induction k arbitrary: a)
  case 0
  then show ?case by (simp add: bitlen.simps)
next
  case (Suc k)
  show ?case
  proof (cases "a \<le> 0")
    case True
    then show ?thesis by (simp add: bitlen.simps)
  next
    case False
    from Suc.prems have "a div 2 < 2 ^ k" by simp
    then have "bitlen (a div 2) \<le> k" by (rule Suc.IH)
    with False show ?thesis by (subst bitlen.simps) simp
  qed
qed

lemma to_double_exact: "\<bar>v\<bar> < 2 ^ 53 \<Longrightarrow> to_double v = v"
proof -
  assume "\<bar>v\<bar> < 2 ^ 53"
  then have "bitlen \<bar>v\<bar> \<le> 53" by (rule bitlen_le)
  then show ?thesis by (simp add: to_double_def Let_def)
qed

lemma js_sub_exact: "\<bar>a - b\<bar> < 2 ^ 53 \<Longrightarrow> js_sub a b = a - b"
  by (simp add: js_sub_def to_double_exact)

text \<open>
  Where the display, the coordinates and the length are signed 32-bit integers no
  difference is rounded and the exclusive-or swap is a swap: both public methods then
  call the primitive and pass the coordinates that the rotation table of the spec gives.
\<close>

lemma rotation_table_int32:
  assumes r: "rotation s \<in> {0, 1, 2, 3}"
    and d: "0 \<le> WIDTH s" "in_int32 (WIDTH s)" "0 \<le> HEIGHT s" "in_int32 (HEIGHT s)"
    and a: "in_int32 x" "in_int32 y" "in_int32 len"
  shows "drawFastHLine s x y len color =
           run_primitive s (rotation_table_h (rotation s) (WIDTH s) (HEIGHT s) x y len) len color"
    and "drawFastVLine s x y len color =
           run_primitive s (rotation_table_v (rotation s) (WIDTH s) (HEIGHT s) x y len) len color"
proof -
  have sw: "xor_swap x y = (y, x)" using a by (simp add: xor_swap_int32)
  have b: "\<bar>WIDTH s\<bar> < 2 ^ 31" "\<bar>HEIGHT s\<bar> < 2 ^ 31" "\<bar>x\<bar> \<le> 2 ^ 31" "\<bar>y\<bar> \<le> 2 ^ 31"
    "\<bar>len\<bar> \<le> 2 ^ 31"
    using d a by (auto simp add: in_int32_def)
  have l: "js_sub len 1 = len - 1" using b by (intro js_sub_exact) simp
  have wx: "js_sub (WIDTH s) x = WIDTH s - x" using b by (intro js_sub_exact) simp
  have wy: "js_sub (WIDTH s) y = WIDTH s - y" using b by (intro js_sub_exact) simp
  have hx: "js_sub (HEIGHT s) x = HEIGHT s - x" using b by (intro js_sub_exact) simp
  have hy: "js_sub (HEIGHT s) y = HEIGHT s - y" using b by (intro js_sub_exact) simp
  have wx1: "js_sub (WIDTH s - x) 1 = WIDTH s - x - 1" using b by (intro js_sub_exact) simp
  have wy1: "js_sub (WIDTH s - y) 1 = WIDTH s - y - 1" using b by (intro js_sub_exact) simp
  have hx1: "js_sub (HEIGHT s - x) 1 = HEIGHT s - x - 1" using b by (intro js_sub_exact) simp
  have hy1: "js_sub (HEIGHT s - y) 1 = HEIGHT s - y - 1" using b by (intro js_sub_exact) simp
  have wxl: "js_sub (WIDTH s - x - 1) (len - 1) = WIDTH s - x - 1 - (len - 1)"
    using b by (intro js_sub_exact) simp
  have wyl: "js_sub (WIDTH s - y - 1) (len - 1) = WIDTH s - y - 1 - (len - 1)"
    using b by (intro js_sub_exact) simp
  have hxl: "js_sub (HEIGHT s - x - 1) (len - 1) = HEIGHT s - x - 1 - (len - 1)"
    using b by (intro js_sub_exact) simp
  have hyl: "js_sub (HEIGHT s - y - 1) (len - 1) = HEIGHT s - y - 1 - (len - 1)"
    using b by (intro js_sub_exact) simp
  note subs = l wx wy hx hy wx1 wy1 hx1 hy1 wxl wyl hxl hyl
  consider "rotation s = 0" | "rotation s = 1" | "rotation s = 2" | "rotation s = 3"
    using r by auto
  then have "drawFastHLine s x y len color =
           run_primitive s (rotation_table_h (rotation s) (WIDTH s) (HEIGHT s) x y len) len color \<and>
         drawFastVLine s x y len color =
           run_primitive s (rotation_table_v (rotation s) (WIDTH s) (HEIGHT s) x y len) len color"
    by cases
      (simp_all add: drawFastHLine_def drawFastVLine_def rotation_table_h_def rotation_table_v_def
        sw subs, simp_all add: algebra_simps)
  then show "drawFastHLine s x y len color =
           run_primitive s (rotation_table_h (rotation s) (WIDTH s) (HEIGHT s) x y len) len color"
    and "drawFastVLine s x y len color =
           run_primitive s (rotation_table_v (rotation s) (WIDTH s) (HEIGHT s) x y len) len color"
    by simp_all
qed

text \<open>
  Claim C1 fails on the code under rotation 1 and 3, where the source swaps with
  \<open>x ^= y, y ^= x, x ^= y\<close> under the comment "swap x & y": the exclusive-or coerces both
  coordinates to signed 32-bit integers, so a coordinate outside that range is replaced
  by another one instead of being swapped. On a 1x8 display under rotation 1 the table sends
  \<open>drawFastHLine (4294967296, 0, 1, WHITE)\<close> to \<open>_drawFastVLineInternal (0, 4294967296, 1, WHITE)\<close>,
  which is clipped away and leaves the byte \<open>0x00\<close>; the code turns 4294967296 into 0,
  calls \<open>_drawFastVLineInternal (0, 0, 1, WHITE)\<close> and sets the pixel at (0, 0). Under
  rotation 0 the same call is clipped away.
\<close>

theorem rotation_swap_failing_input:
  "rotation (blank 1 8 1) = 1 \<and> buffer (blank 1 8 1) = [0x00] \<and>
   rotation_table_h 1 1 8 4294967296 0 1 = (Vertical, 0, 4294967296) \<and>
   buffer (run_primitive (blank 1 8 1) (Vertical, 0, 4294967296) 1 SSD1315_WHITE) = [0x00] \<and>
   drawFastHLine (blank 1 8 1) 4294967296 0 1 SSD1315_WHITE =
     drawFastVLineInternal (blank 1 8 1) 0 0 1 SSD1315_WHITE \<and>
   buffer (drawFastHLine (blank 1 8 1) 4294967296 0 1 SSD1315_WHITE) = [0x01] \<and>
   buffer (drawFastHLine (blank 1 8 0) 4294967296 0 1 SSD1315_WHITE) = [0x00]"
  by (simp add: blank_1_8 drawFastHLine_def xor_swap_eq t1 ToInt32_int rotation_table_h_def
      js_sub_exact drawFastVLineInternal_def drawFastHLineInternal_def vline_body_def
      vline_rest_def mask_byte_def buffer_rmw_def
      adjust_dirty_window_def js_and_7 toInt_div_def color_defs SSD1315_VLINE_POST_MASK_def Let_def)

section \<open>Buffers after the loops\<close>

lemma length_range_upd [simp]: "length (range_upd i n f buf) = length buf"
  by (simp add: range_upd_def)

lemma length_col_upd [simp]: "length (col_upd w x g buf) = length buf"
  by (simp add: col_upd_def)

lemma nth_range_upd:
  "j < length buf \<Longrightarrow>
   range_upd i n f buf ! j = (if i \<le> int j \<and> int j < i + int n then f (buf ! j) else buf ! j)"
  by (simp add: range_upd_def)

lemma nth_col_upd:
  "j < length buf \<Longrightarrow>
   col_upd w x g buf ! j = (if int j mod w = x then g (int j div w) (buf ! j) else buf ! j)"
  by (simp add: col_upd_def)

lemma range_upd_0 [simp]: "range_upd i 0 f buf = buf"
  by (auto simp add: list_eq_iff_nth_eq nth_range_upd)

lemma buffer_rmw_eq:
  "buffer_rmw f i s = s\<lparr>buffer := range_upd i 1 f (buffer s), touched := touched s @ [i]\<rparr>"
proof -
  have "(if 0 \<le> i \<and> i < int (length (buffer s))
           then (buffer s)[nat i := f (buffer s ! nat i)] else buffer s) = range_upd i 1 f (buffer s)"
    by (auto simp add: list_eq_iff_nth_eq nth_range_upd nth_list_update)
  then show ?thesis by (simp add: buffer_rmw_def)
qed

lemma range_upd_step:
  "range_upd (i + 1) n f (range_upd i (Suc 0) f buf) = range_upd i (Suc n) f buf"
  by (auto simp add: list_eq_iff_nth_eq nth_range_upd)

lemma hline_loop_eq:
  "hline_loop f i n s =
     s\<lparr>buffer := range_upd i n f (buffer s),
       touched := touched s @ map (\<lambda>k. i + int k) [0..<n]\<rparr>"
proof (induction n arbitrary: i s)
  case 0
  then show ?case by simp
next
  case (Suc n)
  have "map (\<lambda>k. i + int k) [0..<Suc n] = i # map (\<lambda>k. i + 1 + int k) [0..<n]"
    by (simp add: upt_rec [of 0 "Suc n"] map_Suc_upt [symmetric] del: upt_Suc)
  then show ?case
    by (simp add: Suc.IH buffer_rmw_eq range_upd_step del: upt_Suc)
qed

lemma index_less_iff:
  fixes a b p q W :: int
  assumes "0 \<le> a" "a < W" "0 \<le> b" "b \<le> W"
  shows "a + q * W < b + p * W \<longleftrightarrow> q < p \<or> (q = p \<and> a < b)"
proof -
  consider "q < p" | "q = p" | "p < q" by linarith
  then show ?thesis
  proof cases
    case 1
    then have "(q + 1) * W \<le> p * W" using assms by (intro mult_right_mono) auto
    then have "q * W + W \<le> p * W" by (simp add: algebra_simps)
    with 1 assms show ?thesis by auto
  next
    case 2
    then show ?thesis by simp
  next
    case 3
    then have "(p + 1) * W \<le> q * W" using assms by (intro mult_right_mono) auto
    then have "p * W + W \<le> q * W" by (simp add: algebra_simps)
    with 3 assms show ?thesis by auto
  qed
qed

lemma index_eq_iff:
  fixes j x p W :: int
  assumes "0 \<le> x" "x < W"
  shows "j = x + p * W \<longleftrightarrow> j mod W = x \<and> j div W = p"
proof
  assume "j = x + p * W"
  with assms show "j mod W = x \<and> j div W = p" by simp
next
  assume a: "j mod W = x \<and> j div W = p"
  have "j = (j div W) * W + j mod W" by simp
  with a show "j = x + p * W" by (simp only: add.commute)
qed

lemma toInt_div_nonneg: "0 \<le> a \<Longrightarrow> toInt_div a b = a div b"
  by (simp add: toInt_div_def)

lemma pages_eq: "0 \<le> HEIGHT s \<Longrightarrow> pages s = (HEIGHT s + 7) div 8"
  by (simp add: pages_def toInt_div_def)

lemma pixel_index_in_buffer:
  assumes "well_formed s" "in_buffer s x y"
  shows "pixel_index (WIDTH s) x y < length (buffer s)"
proof -
  let ?W = "WIDTH s"
  from assms have x: "0 \<le> x" "x < ?W" and y: "0 \<le> y" "y < 8 * pages s"
    by (simp_all add: in_buffer_def)
  from y have q: "0 \<le> y div 8" "y div 8 < pages s" by auto
  have "x + (y div 8) * ?W < 0 + pages s * ?W"
    using x q by (subst index_less_iff) auto
  moreover have "0 \<le> x + (y div 8) * ?W" using x q by simp
  moreover have "int (length (buffer s)) = ?W * pages s"
    using assms(1) by (simp add: well_formed_def buffer_size_def pages_def)
  ultimately show ?thesis by (simp add: pixel_index_def mult.commute)
qed

lemma buffer_eqI:
  assumes wf: "well_formed s"
    and len: "length buf = length (buffer s)"
    and px: "\<And>x y. in_buffer s x y \<Longrightarrow> pixel_of (WIDTH s) buf x y = pixel s x y"
  shows "buf = buffer s"
proof (rule nth_equalityI)
  show "length buf = length (buffer s)" by (rule len)
next
  fix j assume j: "j < length buf"
  let ?W = "WIDTH s"
  have N: "int (length (buffer s)) = ?W * pages s"
    using wf by (simp add: well_formed_def buffer_size_def pages_def)
  have W: "0 < ?W"
  proof (rule ccontr)
    assume "\<not> 0 < ?W"
    with wf have "?W = 0" by (simp add: well_formed_def)
    with N j len show False by simp
  qed
  define x where "x = int j mod ?W"
  define q where "q = int j div ?W"
  have x: "0 \<le> x" "x < ?W" using W by (simp_all add: x_def)
  have q0: "0 \<le> q" using W by (simp add: q_def pos_imp_zdiv_nonneg_iff)
  have jq: "int j = x + q * ?W" by (simp add: x_def q_def)
  have "q < pages s"
  proof (rule ccontr)
    assume "\<not> q < pages s"
    then have "pages s * ?W \<le> q * ?W" using W by (intro mult_right_mono) auto
    with jq x have "pages s * ?W \<le> int j" by linarith
    with N j len show False by (simp add: mult.commute)
  qed
  show "buf ! j = buffer s ! j"
  proof (rule bit_word_eqI)
    fix k assume "k < LENGTH(8)"
    then have k: "k < 8" by simp
    define y where "y = 8 * q + int k"
    have yd: "y div 8 = q" "y mod 8 = int k" using k by (simp_all add: y_def)
    have "in_buffer s x y"
      using x q0 \<open>q < pages s\<close> k by (simp add: in_buffer_def y_def)
    then have "pixel_of ?W buf x y = pixel s x y" by (rule px)
    moreover have "pixel_index ?W x y = j"
      using jq yd by (simp add: pixel_index_def)
    ultimately show "bit (buf ! j) k = bit (buffer s ! j) k"
      using yd by (simp add: pixel_of_def pixel_def)
  qed
qed

section \<open>The horizontal primitive, pixel by pixel\<close>

lemma bit_part_byte:
  "k < 8 \<Longrightarrow> bit (part_byte c m b) k = (if bit m k then color_bit c (bit b k) else bit b k)"
  by (auto simp add: part_byte_def color_bit_def color_defs bit_simps)

lemma bit_pixel_mask: "bit (push_bit n 1 :: 8 word) k \<longleftrightarrow> k = n \<and> n < 8"
  by (auto simp add: bit_simps)

lemma bit_pixel_mask_exp: "bit (2 ^ n :: 8 word) k \<longleftrightarrow> k = n \<and> n < 8"
  by (auto simp add: bit_simps)

lemma range_upd_id: "range_upd i n (\<lambda>b. b) buf = buf"
  by (simp add: list_eq_iff_nth_eq nth_range_upd)

lemma drawFastHLineInternal_eq:
  "drawFastHLineInternal s x y w color =
     (if 0 \<le> y \<and> y < HEIGHT s \<and> max x 0 < min (x + w) (WIDTH s) then
        (adjust_dirty_window (max x 0) y (min (x + w) (WIDTH s) - 1) y s)
          \<lparr>buffer := range_upd (max x 0 + (y div 8) * WIDTH s) (nat (min (x + w) (WIDTH s) - max x 0))
                       (part_byte color (push_bit (nat (y mod 8)) 1)) (buffer s),
           touched := touched s @
              hline_touched color (max x 0 + (y div 8) * WIDTH s) (nat (min (x + w) (WIDTH s) - max x 0))\<rparr>
      else s)"
proof (cases "0 \<le> y \<and> y < HEIGHT s")
  case False
  then show ?thesis by (auto simp add: drawFastHLineInternal_def)
next
  case True
  define x1 where "x1 = max x 0"
  define x2 where "x2 = min (x + w) (WIDTH s)"
  define w1 where "w1 = (if x < 0 then w + x else w)"
  define w2 where "w2 = (if x1 + w1 > WIDTH s then WIDTH s - x1 else w1)"
  have w2: "w2 = x2 - x1" by (auto simp add: w2_def w1_def x1_def x2_def)
  have pb: "part_byte color m = (if color = SSD1315_WHITE then (\<lambda>b. b OR m)
      else if color = SSD1315_BLACK then (\<lambda>b. b AND NOT m)
      else if color = SSD1315_INVERSE then (\<lambda>b. b XOR m) else (\<lambda>b. b))" for m
    by (auto simp add: part_byte_def fun_eq_iff)
  have "drawFastHLineInternal s x y w color =
     (if w2 > 0 then
        let s1 = adjust_dirty_window x1 y (x1 + w2 - 1) y s;
            index = x1 + (y div 8) * WIDTH s;
            val = (push_bit (nat (y mod 8)) 1 :: 8 word)
        in if color = SSD1315_WHITE then hline_loop (\<lambda>b. b OR val) index (nat w2) s1
           else if color = SSD1315_BLACK then hline_loop (\<lambda>b. b AND NOT val) index (nat w2) s1
           else if color = SSD1315_INVERSE then hline_loop (\<lambda>b. b XOR val) index (nat w2) s1
           else s1
      else s)"
    using True
    by (auto simp add: drawFastHLineInternal_def x1_def w1_def w2_def Let_def js_and_7
        toInt_div_nonneg max_def)
  also have "\<dots> = (if x1 < x2 then
        (adjust_dirty_window x1 y (x2 - 1) y s)
          \<lparr>buffer := range_upd (x1 + (y div 8) * WIDTH s) (nat (x2 - x1))
                       (part_byte color (push_bit (nat (y mod 8)) 1)) (buffer s),
           touched := touched s @ hline_touched color (x1 + (y div 8) * WIDTH s) (nat (x2 - x1))\<rparr>
      else s)"
    unfolding w2
    by (simp add: hline_loop_eq adjust_dirty_window_def hline_touched_def pb range_upd_id Let_def)
  finally show ?thesis using True by (simp add: x1_def x2_def)
qed

lemma pixel_of_range_upd:
  assumes "0 \<le> x'" "x' < W" "0 \<le> x1" "x1 + int n \<le> W" "0 \<le> y'"
    and "pixel_index W x' y' < length buf"
  shows "pixel_of W (range_upd (x1 + p * W) n f buf) x' y' =
           (if y' div 8 = p \<and> x1 \<le> x' \<and> x' < x1 + int n
            then bit (f (buf ! pixel_index W x' y')) (nat (y' mod 8))
            else pixel_of W buf x' y')"
proof -
  let ?q = "y' div 8"
  have q: "0 \<le> ?q" using assms(5) by simp
  have "0 \<le> ?q * W" using q assms(1,2) by simp
  then have idx: "int (pixel_index W x' y') = x' + ?q * W"
    using assms(1) by (simp add: pixel_index_def)
  have a: "x' + ?q * W < x1 + p * W \<longleftrightarrow> ?q < p \<or> (?q = p \<and> x' < x1)"
    using assms by (intro index_less_iff) auto
  have b: "x' + ?q * W < (x1 + int n) + p * W \<longleftrightarrow> ?q < p \<or> (?q = p \<and> x' < x1 + int n)"
    using assms by (intro index_less_iff) auto
  have "(x1 + p * W \<le> x' + ?q * W \<and> x' + ?q * W < x1 + p * W + int n) \<longleftrightarrow>
          (?q = p \<and> x1 \<le> x' \<and> x' < x1 + int n)"
    using a b by (auto simp add: algebra_simps)
  then show ?thesis
    using assms(6) idx by (simp add: pixel_of_def nth_range_upd)
qed

lemma hline_pixel:
  assumes wf: "well_formed s" and ib: "in_buffer s x' y'"
  shows "pixel (drawFastHLineInternal s x y w color) x' y' =
           (if y' = y \<and> 0 \<le> y \<and> y < HEIGHT s \<and> x \<le> x' \<and> x' < x + w
            then color_bit color (pixel s x' y') else pixel s x' y')"
proof (cases "0 \<le> y \<and> y < HEIGHT s \<and> max x 0 < min (x + w) (WIDTH s)")
  case False
  then have "drawFastHLineInternal s x y w color = s"
    by (subst drawFastHLineInternal_eq) (simp only: if_False)
  moreover from False ib have "\<not> (y' = y \<and> 0 \<le> y \<and> y < HEIGHT s \<and> x \<le> x' \<and> x' < x + w)"
    by (auto simp add: in_buffer_def)
  ultimately show ?thesis by (simp only: if_False)
next
  case True
  let ?W = "WIDTH s"
  define x1 where "x1 = max x 0"
  define n where "n = nat (min (x + w) ?W - max x 0)"
  from ib have x': "0 \<le> x'" "x' < ?W" "0 \<le> y'" by (simp_all add: in_buffer_def)
  have n: "x1 + int n = min (x + w) ?W" using True by (simp add: x1_def n_def)
  have idx: "pixel_index ?W x' y' < length (buffer s)"
    using wf ib by (rule pixel_index_in_buffer)
  have k: "nat (y' mod 8) < 8" by (simp add: nat_less_iff)
  have same: "y' div 8 = y div 8 \<and> nat (y' mod 8) = nat (y mod 8) \<longleftrightarrow> y' = y"
  proof -
    have "nat (y' mod 8) = nat (y mod 8) \<longleftrightarrow> y' mod 8 = y mod 8" by (simp add: nat_eq_iff)
    moreover have "y' = y' div 8 * 8 + y' mod 8" "y = y div 8 * 8 + y mod 8" by simp_all
    ultimately show ?thesis by metis
  qed
  have "pixel (drawFastHLineInternal s x y w color) x' y' =
          pixel_of ?W (range_upd (x1 + (y div 8) * ?W) n
             (part_byte color (push_bit (nat (y mod 8)) 1)) (buffer s)) x' y'"
    using True by (simp add: drawFastHLineInternal_eq pixel_def adjust_dirty_window_def x1_def n_def)
  also have "\<dots> = (if y' div 8 = y div 8 \<and> x1 \<le> x' \<and> x' < x1 + int n
            then bit (part_byte color (push_bit (nat (y mod 8)) 1) (buffer s ! pixel_index ?W x' y'))
                   (nat (y' mod 8))
            else pixel_of ?W (buffer s) x' y')"
    using x' n idx by (intro pixel_of_range_upd) (simp_all add: x1_def)
  also have "\<dots> = (if y' = y \<and> x1 \<le> x' \<and> x' < x1 + int n
            then color_bit color (pixel s x' y') else pixel s x' y')"
    using same k by (auto simp add: bit_part_byte bit_pixel_mask_exp pixel_def pixel_of_def)
  also have "\<dots> = (if y' = y \<and> 0 \<le> y \<and> y < HEIGHT s \<and> x \<le> x' \<and> x' < x + w
            then color_bit color (pixel s x' y') else pixel s x' y')"
    using True x' n by (auto simp add: x1_def)
  finally show ?thesis .
qed

lemma hline_frame:
  "WIDTH (drawFastHLineInternal s x y w color) = WIDTH s"
  "HEIGHT (drawFastHLineInternal s x y w color) = HEIGHT s"
  "rotation (drawFastHLineInternal s x y w color) = rotation s"
  "bus (drawFastHLineInternal s x y w color) = bus s"
  "length (buffer (drawFastHLineInternal s x y w color)) = length (buffer s)"
  by (simp_all add: drawFastHLineInternal_eq adjust_dirty_window_def)

lemma hline_well_formed:
  "well_formed s \<Longrightarrow> well_formed (drawFastHLineInternal s x y w color)"
  by (simp add: well_formed_def buffer_size_def hline_frame)

section \<open>The vertical primitive, byte by byte\<close>

lemma col_upd_id: "col_upd W x (\<lambda>q b. b) buf = buf"
  by (simp add: list_eq_iff_nth_eq nth_col_upd)

lemma col_upd_col_upd:
  "col_upd W x g2 (col_upd W x g1 buf) = col_upd W x (\<lambda>q b. g2 q (g1 q b)) buf"
  by (simp add: list_eq_iff_nth_eq nth_col_upd)

lemma buffer_rmw_col:
  assumes "0 \<le> x" "x < WIDTH s"
  shows "buffer_rmw f (x + p * WIDTH s) s =
           s\<lparr>buffer := col_upd (WIDTH s) x (\<lambda>q b. if q = p then f b else b) (buffer s),
             touched := touched s @ [x + p * WIDTH s]\<rparr>"
proof -
  have "range_upd (x + p * WIDTH s) 1 f (buffer s) =
          col_upd (WIDTH s) x (\<lambda>q b. if q = p then f b else b) (buffer s)"
  proof (rule nth_equalityI)
    show "length (range_upd (x + p * WIDTH s) 1 f (buffer s)) =
            length (col_upd (WIDTH s) x (\<lambda>q b. if q = p then f b else b) (buffer s))"
      by simp
  next
    fix j assume "j < length (range_upd (x + p * WIDTH s) 1 f (buffer s))"
    then have j: "j < length (buffer s)" by simp
    have "(x + p * WIDTH s \<le> int j \<and> int j < x + p * WIDTH s + 1) \<longleftrightarrow> int j = x + p * WIDTH s"
      by auto
    also have "\<dots> \<longleftrightarrow> int j mod WIDTH s = x \<and> int j div WIDTH s = p"
      using assms by (rule index_eq_iff)
    finally show "range_upd (x + p * WIDTH s) 1 f (buffer s) ! j =
            col_upd (WIDTH s) x (\<lambda>q b. if q = p then f b else b) (buffer s) ! j"
      using j by (auto simp add: nth_range_upd nth_col_upd)
  qed
  then show ?thesis by (simp add: buffer_rmw_eq)
qed

lemma whole_bytes_eq:
  assumes x: "0 \<le> x" "x < WIDTH s" and r: "0 \<le> r" "r < 8"
  shows "\<exists>T. whole_bytes f (WIDTH s) (x + p * WIDTH s) (8 * int (Suc n) + r) s =
           (s\<lparr>buffer := col_upd (WIDTH s) x
                          (\<lambda>q b. if p \<le> q \<and> q < p + int (Suc n) then f b else b) (buffer s),
              touched := touched s @ T\<rparr>,
            x + (p + int (Suc n)) * WIDTH s, r) \<and>
           set T \<subseteq> (\<lambda>q. x + q * WIDTH s) ` {p ..< p + int (Suc n)}"
  using x
proof (induction n arbitrary: p s)
  case 0
  have sub: "set [x + p * WIDTH s] \<subseteq> (\<lambda>q. x + q * WIDTH s) ` {p ..< p + int (Suc 0)}"
    by (auto intro!: image_eqI [where x = p])
  have g: "(\<lambda>q b. if p \<le> q \<and> q < p + int (Suc 0) then f b else b) =
      (\<lambda>q b. if q = p then f b else b)"
    by (auto simp add: fun_eq_iff)
  have "whole_bytes f (WIDTH s) (x + p * WIDTH s) (8 * int (Suc 0) + r) s =
           (s\<lparr>buffer := col_upd (WIDTH s) x
                          (\<lambda>q b. if p \<le> q \<and> q < p + int (Suc 0) then f b else b) (buffer s),
              touched := touched s @ [x + p * WIDTH s]\<rparr>,
            x + (p + int (Suc 0)) * WIDTH s, r)"
    unfolding g using r 0
    apply (subst whole_bytes.simps)
    apply (simp add: buffer_rmw_col Let_def algebra_simps)
    done
  with sub show ?case by blast
next
  case (Suc n)
  let ?W = "WIDTH s"
  let ?Ga = "\<lambda>(q::int) (b::8 word). if q = p then f b else b"
  let ?Gb = "\<lambda>(q::int) (b::8 word). if p + 1 \<le> q \<and> q < p + 1 + int (Suc n) then f b else b"
  let ?G = "\<lambda>(q::int) (b::8 word). if p \<le> q \<and> q < p + int (Suc (Suc n)) then f b else b"
  let ?s' = "s\<lparr>buffer := col_upd ?W x ?Ga (buffer s), touched := touched s @ [x + p * ?W]\<rparr>"
  have W': "WIDTH ?s' = ?W" by simp
  from Suc.prems have x': "0 \<le> x" "x < WIDTH ?s'" by simp_all
  from Suc.IH [OF x', of "p + 1"] obtain T where
    T: "whole_bytes f ?W (x + (p + 1) * ?W) (8 * int (Suc n) + r) ?s' =
           (?s'\<lparr>buffer := col_upd ?W x ?Gb (buffer ?s'), touched := touched ?s' @ T\<rparr>,
            x + (p + 1 + int (Suc n)) * ?W, r)"
    and sub: "set T \<subseteq> (\<lambda>q. x + q * ?W) ` {p + 1 ..< p + 1 + int (Suc n)}"
    unfolding W' by blast
  have step: "whole_bytes f ?W (x + p * ?W) (8 * int (Suc (Suc n)) + r) s =
      whole_bytes f ?W (x + (p + 1) * ?W) (8 * int (Suc n) + r) ?s'"
    using r Suc.prems
    apply (subst whole_bytes.simps)
    apply (simp add: buffer_rmw_col Let_def algebra_simps)
    done
  have g: "(\<lambda>q b. ?Gb q (?Ga q b)) = ?G"
    by (auto simp add: fun_eq_iff)
  have e1: "?s'\<lparr>buffer := col_upd ?W x ?Gb (buffer ?s'), touched := touched ?s' @ T\<rparr> =
      s\<lparr>buffer := col_upd ?W x ?Gb (col_upd ?W x ?Ga (buffer s)),
        touched := touched s @ ((x + p * ?W) # T)\<rparr>"
    by simp
  have e2: "col_upd ?W x ?Gb (col_upd ?W x ?Ga (buffer s)) = col_upd ?W x ?G (buffer s)"
    by (simp only: col_upd_col_upd g)
  have e3: "x + (p + 1 + int (Suc n)) * ?W = x + (p + int (Suc (Suc n))) * ?W"
    by (simp add: algebra_simps)
  have "{p + 1 ..< p + 1 + int (Suc n)} \<subseteq> {p ..< p + int (Suc (Suc n))}"
    by auto
  then have "(\<lambda>q. x + q * ?W) ` {p + 1 ..< p + 1 + int (Suc n)} \<subseteq>
      (\<lambda>q. x + q * ?W) ` {p ..< p + int (Suc (Suc n))}"
    by (rule image_mono)
  moreover have "x + p * ?W \<in> (\<lambda>q. x + q * ?W) ` {p ..< p + int (Suc (Suc n))}"
    by (auto intro!: image_eqI [where x = p])
  ultimately have "set ((x + p * ?W) # T) \<subseteq> (\<lambda>q. x + q * ?W) ` {p ..< p + int (Suc (Suc n))}"
    using sub by auto
  moreover
  have "whole_bytes f ?W (x + p * ?W) (8 * int (Suc (Suc n)) + r) s =
      (s\<lparr>buffer := col_upd ?W x ?G (buffer s), touched := touched s @ ((x + p * ?W) # T)\<rparr>,
       x + (p + int (Suc (Suc n))) * ?W, r)"
    by (simp only: step T e1 e2 e3)
  ultimately show ?case by blast
qed

lemma post_mask_eq: "n < 8 \<Longrightarrow> SSD1315_VLINE_POST_MASK ! n = mask n"
proof -
  assume "n < 8"
  then have "n \<in> {0, 1, 2, 3, 4, 5, 6, 7}" by auto
  then show ?thesis
    by (auto simp add: SSD1315_VLINE_POST_MASK_def mask_eq_exp_minus_1)
qed

lemma pre_mask_eq: "n < 8 \<Longrightarrow> SSD1315_VLINE_PRE_MASK ! n = NOT (mask (8 - n))"
proof -
  assume "n < 8"
  then have "n \<in> {0, 1, 2, 3, 4, 5, 6, 7}" by auto
  then show ?thesis
    by (auto simp add: SSD1315_VLINE_PRE_MASK_def mask_eq_exp_minus_1)
qed

lemma bit_post_mask: "n < 8 \<Longrightarrow> k < 8 \<Longrightarrow> bit (SSD1315_VLINE_POST_MASK ! n) k \<longleftrightarrow> k < n"
  by (simp add: post_mask_eq bit_simps)

lemma bit_pre_mask: "n < 8 \<Longrightarrow> k < 8 \<Longrightarrow> bit (SSD1315_VLINE_PRE_MASK ! n) k \<longleftrightarrow> 8 - n \<le> k"
  by (auto simp add: pre_mask_eq bit_simps)

lemma bit_shifted_ff: "bit (drop_bit j (0xFF :: 8 word)) k \<longleftrightarrow> j + k < 8"
proof -
  have e: "(0xFF :: 8 word) = - 1" by simp
  show ?thesis unfolding e by (auto simp add: bit_simps)
qed

lemma bit_first_mask:
  assumes "0 < md" "md < 8" "0 < h" "k < 8"
  shows "bit (first_mask md h) k \<longleftrightarrow> md \<le> int k \<and> int k < md + h"
proof -
  have n: "nat (8 - md) < 8" using assms by simp
  have a: "8 - nat (8 - md) \<le> k \<longleftrightarrow> md \<le> int k" using assms by auto
  show ?thesis
  proof (cases "h < 8 - md")
    case True
    then have b: "nat (8 - md - h) + k < 8 \<longleftrightarrow> int k < md + h" using assms by auto
    from True show ?thesis
      using assms(4) n a b by (simp add: first_mask_def Let_def bit_and_iff bit_pre_mask bit_shifted_ff)
  next
    case False
    then have "int k < md + h" using assms by auto
    with False show ?thesis
      using assms(4) n a by (simp add: first_mask_def Let_def bit_pre_mask)
  qed
qed

lemma bit_whole_byte:
  "k < 8 \<Longrightarrow> bit (whole_byte c b) k =
     (if c = SSD1315_INVERSE then \<not> bit b k else c \<noteq> SSD1315_BLACK)"
proof -
  assume k: "k < 8"
  have e: "(0xFF :: 8 word) = - 1" by simp
  have "bit (0xFF :: 8 word) k" unfolding e using k by (simp add: bit_simps)
  then show ?thesis by (simp add: whole_byte_def bit_simps)
qed

lemma bit_whole_byte_valid:
  "k < 8 \<Longrightarrow> c = SSD1315_WHITE \<or> c = SSD1315_BLACK \<or> c = SSD1315_INVERSE \<Longrightarrow>
   bit (whole_byte c b) k = color_bit c (bit b k)"
  by (auto simp add: bit_whole_byte color_bit_def color_defs)

lemma mask_byte_col:
  assumes "0 \<le> x" "x < WIDTH s"
  shows "\<exists>T. mask_byte c m (x + p * WIDTH s) s =
           s\<lparr>buffer := col_upd (WIDTH s) x (\<lambda>q b. if q = p then part_byte c m b else b) (buffer s),
             touched := touched s @ T\<rparr> \<and>
           set T \<subseteq> {x + p * WIDTH s}"
proof (cases "c = SSD1315_WHITE \<or> c = SSD1315_BLACK \<or> c = SSD1315_INVERSE")
  case True
  have pb: "part_byte c m = (if c = SSD1315_WHITE then (\<lambda>b. b OR m)
      else if c = SSD1315_BLACK then (\<lambda>b. b AND NOT m)
      else if c = SSD1315_INVERSE then (\<lambda>b. b XOR m) else (\<lambda>b. b))"
    by (auto simp add: part_byte_def fun_eq_iff)
  have "mask_byte c m (x + p * WIDTH s) s = buffer_rmw (part_byte c m) (x + p * WIDTH s) s"
    using True by (auto simp add: mask_byte_def pb)
  also have "\<dots> = s\<lparr>buffer := col_upd (WIDTH s) x (\<lambda>q b. if q = p then part_byte c m b else b) (buffer s),
             touched := touched s @ [x + p * WIDTH s]\<rparr>"
    using assms by (rule buffer_rmw_col)
  finally show ?thesis by (intro exI [where x = "[x + p * WIDTH s]"]) simp
next
  case False
  then have e: "mask_byte c m (x + p * WIDTH s) s = s" by (simp add: mask_byte_def)
  from False have g: "(\<lambda>(q::int) b. if q = p then part_byte c m b else b) = (\<lambda>q b. b)"
    by (auto simp add: part_byte_def fun_eq_iff)
  show ?thesis
    by (intro exI [where x = "[]"]) (simp add: e g col_upd_id)
qed

lemma whole_byte_fun:
  "whole_byte c = (if c = SSD1315_INVERSE then (\<lambda>b. b XOR 0xFF)
                   else (\<lambda>b. if c \<noteq> SSD1315_BLACK then 0xFF else 0x00))"
  by (auto simp add: whole_byte_def fun_eq_iff)

lemma whole_bytes_color:
  assumes x: "0 \<le> x" "x < WIDTH s" and h: "8 \<le> h"
  shows "\<exists>T. (if c = SSD1315_INVERSE
                then whole_bytes (\<lambda>b. b XOR 0xFF) (WIDTH s) (x + p * WIDTH s) h s
                else whole_bytes (\<lambda>b. if c \<noteq> SSD1315_BLACK then 0xFF else 0x00)
                       (WIDTH s) (x + p * WIDTH s) h s) =
           (s\<lparr>buffer := col_upd (WIDTH s) x
                          (\<lambda>q b. if p \<le> q \<and> q < p + h div 8 then whole_byte c b else b) (buffer s),
              touched := touched s @ T\<rparr>,
            x + (p + h div 8) * WIDTH s, h mod 8) \<and>
           set T \<subseteq> (\<lambda>q. x + q * WIDTH s) ` {p ..< p + h div 8}"
proof -
  define n where "n = nat (h div 8 - 1)"
  define r where "r = h mod 8"
  have r: "0 \<le> r" "r < 8" by (simp_all add: r_def)
  have n: "int (Suc n) = h div 8" using h by (simp add: n_def)
  have hh: "h = 8 * int (Suc n) + r" unfolding n r_def by simp
  note w = whole_bytes_eq [OF x r, of "whole_byte c" p n]
  from w [unfolded hh [symmetric], unfolded n r_def] obtain T where
    "whole_bytes (whole_byte c) (WIDTH s) (x + p * WIDTH s) h s =
       (s\<lparr>buffer := col_upd (WIDTH s) x
                          (\<lambda>q b. if p \<le> q \<and> q < p + h div 8 then whole_byte c b else b) (buffer s),
              touched := touched s @ T\<rparr>,
            x + (p + h div 8) * WIDTH s, h mod 8)"
    and "set T \<subseteq> (\<lambda>q. x + q * WIDTH s) ` {p ..< p + h div 8}"
    by blast
  moreover
  have "(if c = SSD1315_INVERSE
                then whole_bytes (\<lambda>b. b XOR 0xFF) (WIDTH s) (x + p * WIDTH s) h s
                else whole_bytes (\<lambda>b. if c \<noteq> SSD1315_BLACK then 0xFF else 0x00)
                       (WIDTH s) (x + p * WIDTH s) h s) =
        whole_bytes (whole_byte c) (WIDTH s) (x + p * WIDTH s) h s"
    by (simp add: whole_byte_fun)
  ultimately show ?thesis
    by (intro exI [where x = T]) (simp only: simp_thms)
qed

lemma col_idx_mono:
  "lo' \<le> lo \<Longrightarrow> hi \<le> hi' \<Longrightarrow>
   (\<lambda>q. x + q * (W::int)) ` {lo ..< hi} \<subseteq> (\<lambda>q. x + q * W) ` {lo' ..< hi'}"
  by (intro image_mono) auto

lemma vline_rest_eq:
  assumes x: "0 \<le> x" "x < WIDTH s"
  shows "\<exists>T. vline_rest c (x + p * WIDTH s) hT md s =
           s\<lparr>buffer := col_upd (WIDTH s) x (rest_effect c p (hT - md)) (buffer s),
             touched := touched s @ T\<rparr> \<and>
           set T \<subseteq> (\<lambda>q. x + q * WIDTH s) ` {p ..< p + (hT - md + 7) div 8}"
proof -
  let ?W = "WIDTH s"
  define r where "r = hT - md"
  consider "r < 0" | "r = 0" | "0 < r" "r < 8" | "8 \<le> r" "r mod 8 = 0" | "8 \<le> r" "r mod 8 \<noteq> 0"
    by linarith
  then show ?thesis
  proof cases
    case 1
    then have "vline_rest c (x + p * ?W) hT md s = s"
      by (simp add: vline_rest_def r_def)
    moreover from 1 have "rest_effect c p r = (\<lambda>q b. b)"
      by (auto simp add: rest_effect_def fun_eq_iff)
    ultimately show ?thesis
      by (intro exI [where x = "[]"]) (simp add: col_upd_id r_def)
  next
    case 2
    then have "vline_rest c (x + p * ?W) hT md s = s"
      by (simp add: vline_rest_def r_def Let_def)
    moreover from 2 have "rest_effect c p r = (\<lambda>q b. b)"
      by (auto simp add: rest_effect_def fun_eq_iff)
    ultimately show ?thesis
      by (intro exI [where x = "[]"]) (simp add: col_upd_id r_def)
  next
    case 3
    then have rr: "r mod 8 = r" "r div 8 = 0" by simp_all
    from 3 have "vline_rest c (x + p * ?W) hT md s =
        mask_byte c (SSD1315_VLINE_POST_MASK ! nat r) (x + p * ?W) s"
      by (simp add: vline_rest_def r_def Let_def js_and_7)
    moreover from mask_byte_col [OF x] obtain T where
      "mask_byte c (SSD1315_VLINE_POST_MASK ! nat r) (x + p * ?W) s =
         s\<lparr>buffer := col_upd ?W x
             (\<lambda>q b. if q = p then part_byte c (SSD1315_VLINE_POST_MASK ! nat r) b else b) (buffer s),
           touched := touched s @ T\<rparr>"
      and T: "set T \<subseteq> {x + p * ?W}"
      by blast
    moreover from 3 rr have "rest_effect c p r =
        (\<lambda>q b. if q = p then part_byte c (SSD1315_VLINE_POST_MASK ! nat r) b else b)"
      by (auto simp add: rest_effect_def fun_eq_iff)
    moreover have "x + p * ?W \<in> (\<lambda>q. x + q * ?W) ` {p ..< p + (r + 7) div 8}"
      using 3 by (intro image_eqI [where x = p]) auto
    ultimately show ?thesis
      using T by (intro exI [where x = T]) (auto simp add: r_def)
  next
    case 4
    then have ge: "md \<le> hT" and rd: "hT - md = r" by (simp_all add: r_def)
    from whole_bytes_color [OF x 4(1), of c p] obtain T where
      w: "(if c = SSD1315_INVERSE
                then whole_bytes (\<lambda>b. b XOR 0xFF) ?W (x + p * ?W) r s
                else whole_bytes (\<lambda>b. if c \<noteq> SSD1315_BLACK then 0xFF else 0x00) ?W (x + p * ?W) r s) =
           (s\<lparr>buffer := col_upd ?W x
                          (\<lambda>q b. if p \<le> q \<and> q < p + r div 8 then whole_byte c b else b) (buffer s),
              touched := touched s @ T\<rparr>,
            x + (p + r div 8) * ?W, r mod 8)"
      and T: "set T \<subseteq> (\<lambda>q. x + q * ?W) ` {p ..< p + r div 8}"
      by blast
    have "vline_rest c (x + p * ?W) hT md s =
        s\<lparr>buffer := col_upd ?W x
                          (\<lambda>q b. if p \<le> q \<and> q < p + r div 8 then whole_byte c b else b) (buffer s),
              touched := touched s @ T\<rparr>"
      using 4 w ge rd by (simp add: vline_rest_def Let_def)
    moreover from 4 have "rest_effect c p r =
        (\<lambda>q b. if p \<le> q \<and> q < p + r div 8 then whole_byte c b else b)"
      by (auto simp add: rest_effect_def fun_eq_iff)
    moreover have "(\<lambda>q. x + q * ?W) ` {p ..< p + r div 8} \<subseteq>
        (\<lambda>q. x + q * ?W) ` {p ..< p + (r + 7) div 8}"
      by (intro col_idx_mono) auto
    ultimately show ?thesis
      using T by (intro exI [where x = T]) (auto simp add: r_def)
  next
    case 5
    then have ge: "md \<le> hT" and rd: "hT - md = r" by (simp_all add: r_def)
    let ?Ga = "\<lambda>(q::int) b. if p \<le> q \<and> q < p + r div 8 then whole_byte c b else b"
    let ?m = "SSD1315_VLINE_POST_MASK ! nat (r mod 8)"
    let ?Gb = "\<lambda>(q::int) b. if q = p + r div 8 then part_byte c ?m b else b"
    from whole_bytes_color [OF x 5(1), of c p] obtain T where
      w: "(if c = SSD1315_INVERSE
                then whole_bytes (\<lambda>b. b XOR 0xFF) ?W (x + p * ?W) r s
                else whole_bytes (\<lambda>b. if c \<noteq> SSD1315_BLACK then 0xFF else 0x00) ?W (x + p * ?W) r s) =
           (s\<lparr>buffer := col_upd ?W x ?Ga (buffer s), touched := touched s @ T\<rparr>,
            x + (p + r div 8) * ?W, r mod 8)"
      and T: "set T \<subseteq> (\<lambda>q. x + q * ?W) ` {p ..< p + r div 8}"
      by blast
    let ?s2 = "s\<lparr>buffer := col_upd ?W x ?Ga (buffer s), touched := touched s @ T\<rparr>"
    have x2: "0 \<le> x" "x < WIDTH ?s2" using x by simp_all
    from mask_byte_col [OF x2, of c ?m "p + r div 8"] obtain T2 where
      m: "mask_byte c ?m (x + (p + r div 8) * ?W) ?s2 =
         ?s2\<lparr>buffer := col_upd ?W x ?Gb (buffer ?s2), touched := touched ?s2 @ T2\<rparr>"
      and T2: "set T2 \<subseteq> {x + (p + r div 8) * ?W}"
      by auto
    have "vline_rest c (x + p * ?W) hT md s = mask_byte c ?m (x + (p + r div 8) * ?W) ?s2"
      using 5 w ge rd by (simp add: vline_rest_def Let_def js_and_7)
    also have "\<dots> = s\<lparr>buffer := col_upd ?W x (\<lambda>q b. ?Gb q (?Ga q b)) (buffer s),
         touched := touched s @ (T @ T2)\<rparr>"
      unfolding m by (simp add: col_upd_col_upd)
    also have "(\<lambda>q b. ?Gb q (?Ga q b)) = rest_effect c p r"
      using 5 by (auto simp add: rest_effect_def fun_eq_iff)
    finally have "vline_rest c (x + p * ?W) hT md s =
        s\<lparr>buffer := col_upd ?W x (rest_effect c p r) (buffer s), touched := touched s @ (T @ T2)\<rparr>" .
    moreover have "(\<lambda>q. x + q * ?W) ` {p ..< p + r div 8} \<subseteq>
        (\<lambda>q. x + q * ?W) ` {p ..< p + (r + 7) div 8}"
      by (intro col_idx_mono) auto
    moreover have "r div 8 < (r + 7) div 8" using 5 by (rule div8_ceil_above)
    then have "x + (p + r div 8) * ?W \<in> (\<lambda>q. x + q * ?W) ` {p ..< p + (r + 7) div 8}"
      using 5 by (intro image_eqI [where x = "p + r div 8"]) auto
    ultimately show ?thesis
      using T T2 by (intro exI [where x = "T @ T2"]) (auto simp add: r_def)
  qed
qed

lemma vline_body_eq:
  assumes x: "0 \<le> x" "x < WIDTH s" and y: "0 \<le> y" and h: "0 < h"
  shows "\<exists>T. vline_body c x y h s =
           s\<lparr>buffer := col_upd (WIDTH s) x (vline_effect c y h) (buffer s),
             touched := touched s @ T\<rparr> \<and>
           set T \<subseteq> (\<lambda>q. x + q * WIDTH s) ` {y div 8 ..< (y + h + 7) div 8}"
proof (cases "y mod 8 = 0")
  case True
  let ?W = "WIDTH s"
  from vline_rest_eq [OF x, of c "y div 8" h 0] obtain T where
    r: "vline_rest c (x + y div 8 * ?W) h 0 s =
         s\<lparr>buffer := col_upd ?W x (rest_effect c (y div 8) h) (buffer s), touched := touched s @ T\<rparr>"
    and T: "set T \<subseteq> (\<lambda>q. x + q * ?W) ` {y div 8 ..< y div 8 + (h + 7) div 8}"
    by auto
  have "vline_body c x y h s = vline_rest c (x + y div 8 * ?W) h 0 s"
    using True y by (simp add: vline_body_def Let_def js_and_7 toInt_div_nonneg)
  moreover have "vline_effect c y h = rest_effect c (y div 8) h"
    using True by (simp add: vline_effect_def fun_eq_iff)
  moreover have "y div 8 + (h + 7) div 8 = (y + h + 7) div 8"
    using True by (rule div8_aligned_sum)
  ultimately show ?thesis
    using r T by (intro exI [where x = T]) simp
next
  case False
  let ?W = "WIDTH s"
  let ?p = "y div 8"
  let ?md = "y mod 8"
  let ?m = "first_mask ?md h"
  let ?Ga = "\<lambda>(q::int) b. if q = ?p then part_byte c ?m b else b"
  from mask_byte_col [OF x, of c ?m ?p] obtain T1 where
    m: "mask_byte c ?m (x + ?p * ?W) s =
          s\<lparr>buffer := col_upd ?W x ?Ga (buffer s), touched := touched s @ T1\<rparr>"
    and T1: "set T1 \<subseteq> {x + ?p * ?W}"
    by blast
  let ?s1 = "s\<lparr>buffer := col_upd ?W x ?Ga (buffer s), touched := touched s @ T1\<rparr>"
  let ?Gb = "rest_effect c (?p + 1) (h - (8 - ?md))"
  have x1: "0 \<le> x" "x < WIDTH ?s1" using x by simp_all
  from vline_rest_eq [OF x1, of c "?p + 1" h "8 - ?md"] obtain T2 where
    r: "vline_rest c (x + (?p + 1) * ?W) h (8 - ?md) ?s1 =
         ?s1\<lparr>buffer := col_upd ?W x ?Gb (buffer ?s1), touched := touched ?s1 @ T2\<rparr>"
    and T2: "set T2 \<subseteq> (\<lambda>q. x + q * ?W) ` {?p + 1 ..< ?p + 1 + (h - (8 - ?md) + 7) div 8}"
    by auto
  have "vline_body c x y h s =
      vline_rest c (x + ?p * ?W + ?W) h (8 - ?md) (mask_byte c ?m (x + ?p * ?W) s)"
    using False y
    by (simp add: vline_body_def Let_def js_and_7 toInt_div_nonneg first_mask_def)
  also have "x + ?p * ?W + ?W = x + (?p + 1) * ?W" by (simp add: algebra_simps)
  finally have "vline_body c x y h s = vline_rest c (x + (?p + 1) * ?W) h (8 - ?md) ?s1"
    unfolding m .
  also have "\<dots> = s\<lparr>buffer := col_upd ?W x (\<lambda>q b. ?Gb q (?Ga q b)) (buffer s),
       touched := touched s @ (T1 @ T2)\<rparr>"
    unfolding r by (simp add: col_upd_col_upd)
  also have "(\<lambda>q b. ?Gb q (?Ga q b)) = vline_effect c y h"
    using False by (auto simp add: vline_effect_def rest_effect_def fun_eq_iff)
  finally have eq: "vline_body c x y h s =
      s\<lparr>buffer := col_upd ?W x (vline_effect c y h) (buffer s), touched := touched s @ (T1 @ T2)\<rparr>" .
  have hi: "?p + 1 + (h - (8 - ?md) + 7) div 8 = (y + h + 7) div 8"
    by (rule div8_unaligned_sum)
  have "?p < (y + h + 7) div 8" using h by (rule div8_first_page)
  then have a: "x + ?p * ?W \<in> (\<lambda>q. x + q * ?W) ` {?p ..< (y + h + 7) div 8}"
    by (intro image_eqI [where x = ?p]) auto
  have b: "(\<lambda>q. x + q * ?W) ` {?p + 1 ..< ?p + 1 + (h - (8 - ?md) + 7) div 8} \<subseteq>
      (\<lambda>q. x + q * ?W) ` {?p ..< (y + h + 7) div 8}"
    unfolding hi by (intro col_idx_mono) auto
  from a b T1 T2 have "set (T1 @ T2) \<subseteq> (\<lambda>q. x + q * ?W) ` {?p ..< (y + h + 7) div 8}"
    by auto
  with eq show ?thesis by blast
qed

lemma drawFastVLineInternal_eq:
  "\<exists>T. drawFastVLineInternal s x y h c =
     (if 0 \<le> x \<and> x < WIDTH s \<and> max y 0 < min (y + h) (HEIGHT s) then
        (adjust_dirty_window x (max y 0) x (min (y + h) (HEIGHT s) - 1) s)
          \<lparr>buffer := col_upd (WIDTH s) x
               (vline_effect c (max y 0) (min (y + h) (HEIGHT s) - max y 0)) (buffer s),
           touched := touched s @ T\<rparr>
      else s) \<and>
     set T \<subseteq> (\<lambda>q. x + q * WIDTH s) ` {max y 0 div 8 ..< (min (y + h) (HEIGHT s) + 7) div 8}"
proof (cases "0 \<le> x \<and> x < WIDTH s \<and> max y 0 < min (y + h) (HEIGHT s)")
  case False
  then have "drawFastVLineInternal s x y h c = s"
    by (auto simp add: drawFastVLineInternal_def Let_def)
  with False show ?thesis
    by (intro exI [where x = "[]"]) (simp only: if_False list.set empty_subsetI simp_thms)
next
  case True
  define y1 where "y1 = max y 0"
  define y2 where "y2 = min (y + h) (HEIGHT s)"
  define s1 where "s1 = adjust_dirty_window x y1 x (y2 - 1) s"
  have W1: "WIDTH s1 = WIDTH s" "buffer s1 = buffer s" "touched s1 = touched s"
    by (simp_all add: s1_def adjust_dirty_window_def)
  from True have x: "0 \<le> x" "x < WIDTH s1" and y1: "0 \<le> y1" and hh: "0 < y2 - y1"
    by (simp_all add: y1_def y2_def W1)
  from vline_body_eq [OF x y1 hh, of c] obtain T where
    b: "vline_body c x y1 (y2 - y1) s1 =
           s1\<lparr>buffer := col_upd (WIDTH s) x (vline_effect c y1 (y2 - y1)) (buffer s),
             touched := touched s @ T\<rparr>"
    and T: "set T \<subseteq> (\<lambda>q. x + q * WIDTH s) ` {y1 div 8 ..< (y1 + (y2 - y1) + 7) div 8}"
    unfolding W1 by blast
  have "drawFastVLineInternal s x y h c = vline_body c x y1 (y2 - y1) s1"
    using True
    by (auto simp add: drawFastVLineInternal_def Let_def y1_def y2_def s1_def max_def min_def
        add.commute)
  with b T True show ?thesis
    by (intro exI [where x = T]) (simp add: y1_def y2_def s1_def)
qed

lemma bit_rest_effect:
  assumes k: "k < 8"
  shows "bit (rest_effect c p r q b) k =
           (if p \<le> q \<and> 8 * q + 8 \<le> 8 * p + r then bit (whole_byte c b) k
            else if p \<le> q \<and> 8 * q + int k < 8 * p + r then color_bit c (bit b k)
            else bit b k)"
proof -
  consider (whole) "0 \<le> r \<and> p \<le> q \<and> q < p + r div 8"
    | (last) "\<not> (0 \<le> r \<and> p \<le> q \<and> q < p + r div 8)" "0 < r \<and> r mod 8 \<noteq> 0 \<and> q = p + r div 8"
    | (none) "\<not> (0 \<le> r \<and> p \<le> q \<and> q < p + r div 8)" "\<not> (0 < r \<and> r mod 8 \<noteq> 0 \<and> q = p + r div 8)"
    by argo
  then show ?thesis
  proof cases
    case whole
    then have l: "rest_effect c p r q b = whole_byte c b"
      by (simp add: rest_effect_def)
    from whole have c1: "(p \<le> q \<and> 8 * q + 8 \<le> 8 * p + r) = True" by (rule rest_whole)
    show ?thesis by (simp only: l c1 if_True)
  next
    case last
    then have l: "rest_effect c p r q b = part_byte c (SSD1315_VLINE_POST_MASK ! nat (r mod 8)) b"
      by (simp add: rest_effect_def)
    have n: "nat (r mod 8) < 8" by (simp add: nat_less_iff)
    from last(2) have c1: "(p \<le> q \<and> 8 * q + 8 \<le> 8 * p + r) = False"
      by (rule rest_last_not_whole)
    from last(2) have c2: "(p \<le> q \<and> 8 * q + int k < 8 * p + r) = (k < nat (r mod 8))"
      by (rule rest_last_run)
    show ?thesis
      by (simp only: l c1 c2 if_False bit_part_byte [OF k] bit_post_mask [OF n k])
  next
    case none
    have l: "rest_effect c p r q b = b"
      by (simp only: rest_effect_def none if_False)
    from none(1) have c1: "(p \<le> q \<and> 8 * q + 8 \<le> 8 * p + r) = False"
      by (rule rest_none_not_whole)
    from none have c2: "(p \<le> q \<and> 8 * q + int k < 8 * p + r) = False"
      by (rule rest_none_not_run)
    show ?thesis by (simp only: l c1 c2 if_False)
  qed
qed

lemma bit_vline_effect:
  assumes y: "0 \<le> y" and h: "0 < h" and k: "k < 8"
  shows "bit (vline_effect c y h q b) k =
           (if y \<le> 8 * q \<and> 8 * q + 8 \<le> y + h then bit (whole_byte c b) k
            else if y \<le> 8 * q + int k \<and> 8 * q + int k < y + h then color_bit c (bit b k)
            else bit b k)"
proof -
  consider (aligned) "y mod 8 = 0"
    | (first) "y mod 8 \<noteq> 0" "q = y div 8"
    | (later) "y mod 8 \<noteq> 0" "q \<noteq> y div 8"
    by argo
  then show ?thesis
  proof cases
    case aligned
    then have l: "vline_effect c y h q b = rest_effect c (y div 8) h q b"
      by (simp add: vline_effect_def)
    from aligned have c1: "(y div 8 \<le> q \<and> 8 * q + 8 \<le> 8 * (y div 8) + h) =
        (y \<le> 8 * q \<and> 8 * q + 8 \<le> y + h)"
      by (rule aligned_whole)
    from aligned k have c2: "(y div 8 \<le> q \<and> 8 * q + int k < 8 * (y div 8) + h) =
        (y \<le> 8 * q + int k \<and> 8 * q + int k < y + h)"
      by (rule aligned_run)
    show ?thesis by (simp only: l bit_rest_effect [OF k] c1 c2)
  next
    case first
    then have l: "vline_effect c y h q b = part_byte c (first_mask (y mod 8) h) b"
      by (simp add: vline_effect_def)
    have m: "0 < y mod 8" "y mod 8 < 8" using first by (simp_all add: le_less)
    from first have c1: "(y \<le> 8 * q \<and> 8 * q + 8 \<le> y + h) = False"
      by (rule first_not_whole)
    from first(2) have c2: "(y \<le> 8 * q + int k \<and> 8 * q + int k < y + h) =
        (y mod 8 \<le> int k \<and> int k < y mod 8 + h)"
      by (rule first_run)
    show ?thesis
      by (simp only: l c1 c2 if_False bit_part_byte [OF k] bit_first_mask [OF m h k])
  next
    case later
    then have l: "vline_effect c y h q b =
        rest_effect c (y div 8 + 1) (h - (8 - y mod 8)) q b"
      by (simp add: vline_effect_def)
    from later have c1: "(y div 8 + 1 \<le> q \<and> 8 * q + 8 \<le> 8 * (y div 8 + 1) + (h - (8 - y mod 8))) =
        (y \<le> 8 * q \<and> 8 * q + 8 \<le> y + h)"
      by (rule later_whole)
    from later k have c2:
      "(y div 8 + 1 \<le> q \<and> 8 * q + int k < 8 * (y div 8 + 1) + (h - (8 - y mod 8))) =
        (y \<le> 8 * q + int k \<and> 8 * q + int k < y + h)"
      by (rule later_run)
    show ?thesis by (simp only: l bit_rest_effect [OF k] c1 c2)
  qed
qed

section \<open>The vertical primitive, pixel by pixel\<close>

lemma int_pixel_index:
  assumes "0 \<le> x" "0 \<le> W" "0 \<le> y"
  shows "int (pixel_index W x y) = x + (y div 8) * W"
proof -
  have "0 \<le> y div 8" using assms(3) by simp
  then have "0 \<le> (y div 8) * W" using assms(2) by simp
  with assms(1) show ?thesis by (simp add: pixel_index_def)
qed

lemma pixel_of_col_upd:
  assumes "0 \<le> x'" "x' < W" "0 \<le> y'" "pixel_index W x' y' < length buf"
  shows "pixel_of W (col_upd W x g buf) x' y' =
           (if x' = x then bit (g (y' div 8) (buf ! pixel_index W x' y')) (nat (y' mod 8))
            else pixel_of W buf x' y')"
proof -
  have idx: "int (pixel_index W x' y') = x' + (y' div 8) * W"
    using assms by (intro int_pixel_index) auto
  from index_eq_iff [OF assms(1,2), of "int (pixel_index W x' y')" "y' div 8"] idx
  have "int (pixel_index W x' y') mod W = x'" "int (pixel_index W x' y') div W = y' div 8"
    by simp_all
  then show ?thesis
    using assms(4) by (cases "x' = x") (simp_all add: pixel_of_def nth_col_upd)
qed

lemma vline_cases:
  obtains (noop) "\<not> (0 \<le> x \<and> x < WIDTH s \<and> max y 0 < min (y + h) (HEIGHT s))"
      "drawFastVLineInternal s x y h c = s"
  | (draw) T where "0 \<le> x \<and> x < WIDTH s \<and> max y 0 < min (y + h) (HEIGHT s)"
      "drawFastVLineInternal s x y h c =
        (adjust_dirty_window x (max y 0) x (min (y + h) (HEIGHT s) - 1) s)
          \<lparr>buffer := col_upd (WIDTH s) x
               (vline_effect c (max y 0) (min (y + h) (HEIGHT s) - max y 0)) (buffer s),
           touched := touched s @ T\<rparr>"
      "set T \<subseteq> (\<lambda>q. x + q * WIDTH s) ` {max y 0 div 8 ..< (min (y + h) (HEIGHT s) + 7) div 8}"
proof (cases "0 \<le> x \<and> x < WIDTH s \<and> max y 0 < min (y + h) (HEIGHT s)")
  case False
  from drawFastVLineInternal_eq [of s x y h c] obtain T where
    "drawFastVLineInternal s x y h c =
     (if 0 \<le> x \<and> x < WIDTH s \<and> max y 0 < min (y + h) (HEIGHT s) then
        (adjust_dirty_window x (max y 0) x (min (y + h) (HEIGHT s) - 1) s)
          \<lparr>buffer := col_upd (WIDTH s) x
               (vline_effect c (max y 0) (min (y + h) (HEIGHT s) - max y 0)) (buffer s),
           touched := touched s @ T\<rparr>
      else s)"
    by blast
  then have "drawFastVLineInternal s x y h c = s" by (simp only: if_not_P [OF False])
  with False show ?thesis by (rule noop)
next
  case True
  from drawFastVLineInternal_eq [of s x y h c] obtain T where
    e: "drawFastVLineInternal s x y h c =
     (if 0 \<le> x \<and> x < WIDTH s \<and> max y 0 < min (y + h) (HEIGHT s) then
        (adjust_dirty_window x (max y 0) x (min (y + h) (HEIGHT s) - 1) s)
          \<lparr>buffer := col_upd (WIDTH s) x
               (vline_effect c (max y 0) (min (y + h) (HEIGHT s) - max y 0)) (buffer s),
           touched := touched s @ T\<rparr>
      else s)"
    and T: "set T \<subseteq> (\<lambda>q. x + q * WIDTH s) ` {max y 0 div 8 ..< (min (y + h) (HEIGHT s) + 7) div 8}"
    by blast
  from e have "drawFastVLineInternal s x y h c =
        (adjust_dirty_window x (max y 0) x (min (y + h) (HEIGHT s) - 1) s)
          \<lparr>buffer := col_upd (WIDTH s) x
               (vline_effect c (max y 0) (min (y + h) (HEIGHT s) - max y 0)) (buffer s),
           touched := touched s @ T\<rparr>"
    by (simp only: if_P [OF True])
  with True show ?thesis using T by (rule draw)
qed

lemma vline_frame:
  "WIDTH (drawFastVLineInternal s x y h c) = WIDTH s"
  "HEIGHT (drawFastVLineInternal s x y h c) = HEIGHT s"
  "rotation (drawFastVLineInternal s x y h c) = rotation s"
  "bus (drawFastVLineInternal s x y h c) = bus s"
  "length (buffer (drawFastVLineInternal s x y h c)) = length (buffer s)"
  by (cases rule: vline_cases [of x s y h c]; simp add: adjust_dirty_window_def)+

lemma vline_well_formed:
  "well_formed s \<Longrightarrow> well_formed (drawFastVLineInternal s x y h c)"
  by (simp add: well_formed_def buffer_size_def vline_frame)

lemma vline_buffer:
  "buffer (drawFastVLineInternal s x y h c) =
     (if 0 \<le> x \<and> x < WIDTH s \<and> max y 0 < min (y + h) (HEIGHT s)
      then col_upd (WIDTH s) x
             (vline_effect c (max y 0) (min (y + h) (HEIGHT s) - max y 0)) (buffer s)
      else buffer s)"
proof (cases rule: vline_cases [of x s y h c])
  case noop
  show ?thesis by (simp only: if_not_P [OF noop(1)] noop(2))
next
  case (draw T)
  have "buffer (drawFastVLineInternal s x y h c) = col_upd (WIDTH s) x
             (vline_effect c (max y 0) (min (y + h) (HEIGHT s) - max y 0)) (buffer s)"
    unfolding draw(2) by simp
  then show ?thesis by (simp only: if_P [OF draw(1)])
qed

lemma vline_pixel_general:
  assumes wf: "well_formed s" and ib: "in_buffer s x' y'"
  shows "pixel (drawFastVLineInternal s x y h c) x' y' =
           (if x' = x \<and> max y 0 \<le> 8 * (y' div 8) \<and> 8 * (y' div 8) + 8 \<le> min (y + h) (HEIGHT s)
              then whole_bit c (pixel s x' y')
            else if x' = x \<and> max y 0 \<le> y' \<and> y' < min (y + h) (HEIGHT s)
              then color_bit c (pixel s x' y')
            else pixel s x' y')"
proof (cases "0 \<le> x \<and> x < WIDTH s \<and> max y 0 < min (y + h) (HEIGHT s)")
  case False
  then have b: "buffer (drawFastVLineInternal s x y h c) = buffer s"
    by (subst vline_buffer) (simp only: if_False)
  from False ib have c1: "(x' = x \<and> max y 0 \<le> 8 * (y' div 8) \<and>
      8 * (y' div 8) + 8 \<le> min (y + h) (HEIGHT s)) = False"
    by (auto simp add: in_buffer_def)
  from False ib have c2: "(x' = x \<and> max y 0 \<le> y' \<and> y' < min (y + h) (HEIGHT s)) = False"
    by (auto simp add: in_buffer_def)
  show ?thesis by (simp only: c1 c2 if_False pixel_def b vline_frame)
next
  case True
  let ?W = "WIDTH s"
  define y0 where "y0 = max y 0"
  define h0 where "h0 = min (y + h) (HEIGHT s) - max y 0"
  have y0: "0 \<le> y0" and h0: "0 < h0" and e: "y0 + h0 = min (y + h) (HEIGHT s)"
    using True by (simp_all add: y0_def h0_def)
  from ib have x': "0 \<le> x'" "x' < ?W" "0 \<le> y'" by (simp_all add: in_buffer_def)
  have idx: "pixel_index ?W x' y' < length (buffer s)"
    using wf ib by (rule pixel_index_in_buffer)
  have k: "nat (y' mod 8) < 8" by (simp add: nat_less_iff)
  have yk: "8 * (y' div 8) + int (nat (y' mod 8)) = y'" by simp
  from True have b: "buffer (drawFastVLineInternal s x y h c) =
      col_upd ?W x (vline_effect c y0 h0) (buffer s)"
    by (simp add: vline_buffer y0_def h0_def)
  have "pixel (drawFastVLineInternal s x y h c) x' y' =
      pixel_of ?W (col_upd ?W x (vline_effect c y0 h0) (buffer s)) x' y'"
    by (simp only: pixel_def b vline_frame)
  also have "\<dots> = (if x' = x
      then bit (vline_effect c y0 h0 (y' div 8) (buffer s ! pixel_index ?W x' y')) (nat (y' mod 8))
      else pixel_of ?W (buffer s) x' y')"
    using x' idx by (rule pixel_of_col_upd)
  also have "\<dots> = (if x' = x then
       (if y0 \<le> 8 * (y' div 8) \<and> 8 * (y' div 8) + 8 \<le> y0 + h0
          then whole_bit c (pixel s x' y')
        else if y0 \<le> y' \<and> y' < y0 + h0 then color_bit c (pixel s x' y')
        else pixel s x' y')
      else pixel s x' y')"
    by (simp only: bit_vline_effect [OF y0 h0 k] yk bit_whole_byte [OF k] whole_bit_def
        pixel_def pixel_of_def)
  finally show ?thesis
    unfolding e by (auto simp add: y0_def)
qed

lemma vline_pixel:
  assumes wf: "well_formed s" and ib: "in_buffer s x' y'"
    and c: "c = SSD1315_WHITE \<or> c = SSD1315_BLACK \<or> c = SSD1315_INVERSE"
  shows "pixel (drawFastVLineInternal s x y h c) x' y' =
           (if x' = x \<and> max y 0 \<le> y' \<and> y' < min (y + h) (HEIGHT s)
            then color_bit c (pixel s x' y') else pixel s x' y')"
proof -
  from c have w: "whole_bit c v = color_bit c v" for v
    by (auto simp add: whole_bit_def color_bit_def color_defs)
  have "8 * (y' div 8) \<le> y'" "y' < 8 * (y' div 8) + 8" by (rule div8_bounds)+
  then have "max y 0 \<le> 8 * (y' div 8) \<and> 8 * (y' div 8) + 8 \<le> min (y + h) (HEIGHT s) \<Longrightarrow>
      max y 0 \<le> y' \<and> y' < min (y + h) (HEIGHT s)"
    by linarith
  then have imp: "(x' = x \<and> max y 0 \<le> 8 * (y' div 8) \<and> 8 * (y' div 8) + 8 \<le> min (y + h) (HEIGHT s)) \<Longrightarrow>
      (x' = x \<and> max y 0 \<le> y' \<and> y' < min (y + h) (HEIGHT s))"
    by blast
  show ?thesis
  proof (cases "x' = x \<and> max y 0 \<le> 8 * (y' div 8) \<and> 8 * (y' div 8) + 8 \<le> min (y + h) (HEIGHT s)")
    case True
    from imp [OF True] have t: "(x' = x \<and> max y 0 \<le> y' \<and> y' < min (y + h) (HEIGHT s)) = True"
      by (simp only: simp_thms)
    from True have t': "(x' = x \<and> max y 0 \<le> 8 * (y' div 8) \<and> 8 * (y' div 8) + 8 \<le> min (y + h) (HEIGHT s)) = True"
      by (simp only: simp_thms)
    show ?thesis by (simp only: vline_pixel_general [OF wf ib] w t t' if_True)
  next
    case False
    then have f: "(x' = x \<and> max y 0 \<le> 8 * (y' div 8) \<and> 8 * (y' div 8) + 8 \<le> min (y + h) (HEIGHT s)) = False"
      by (simp only: simp_thms)
    show ?thesis by (simp only: vline_pixel_general [OF wf ib] f if_False)
  qed
qed

section \<open>The naive reference\<close>

lemma pixel_index_eq_iff:
  assumes "0 \<le> x" "x < W" "0 \<le> y" "0 \<le> a" "a < W" "0 \<le> b"
  shows "pixel_index W x y = pixel_index W a b \<longleftrightarrow> x = a \<and> y div 8 = b div 8"
proof -
  have i1: "int (pixel_index W x y) = x + (y div 8) * W"
    using assms by (intro int_pixel_index) auto
  have i2: "int (pixel_index W a b) = a + (b div 8) * W"
    using assms by (intro int_pixel_index) auto
  have "pixel_index W x y = pixel_index W a b \<longleftrightarrow>
      int (pixel_index W x y) = int (pixel_index W a b)"
    by simp
  also have "\<dots> \<longleftrightarrow> x + (y div 8) * W = a + (b div 8) * W"
    by (simp only: i1 i2)
  also have "\<dots> \<longleftrightarrow> (x + (y div 8) * W) mod W = a \<and> (x + (y div 8) * W) div W = b div 8"
    using assms(4,5) by (rule index_eq_iff)
  also have "\<dots> \<longleftrightarrow> x = a \<and> y div 8 = b div 8"
    using assms(1,2) by simp
  finally show ?thesis .
qed

lemma same_row_iff: "(y div 8 = b div 8 \<and> nat (y mod 8) = nat (b mod 8)) \<longleftrightarrow> y = (b::int)"
proof -
  have e: "nat (y mod 8) = nat (b mod 8) \<longleftrightarrow> y mod 8 = b mod 8" by (simp add: nat_eq_iff)
  show ?thesis unfolding e by (rule same_row_int)
qed

lemma length_draw_pixel_naive [simp]:
  "length (draw_pixel_naive W c buf p) = length buf"
  by (cases p) (simp add: draw_pixel_naive_def Let_def)

lemma pixel_of_draw_pixel_naive:
  assumes "0 \<le> x" "x < W" "0 \<le> y" "0 \<le> a" "a < W" "0 \<le> b"
    and "pixel_index W a b < length buf"
  shows "pixel_of W (draw_pixel_naive W c buf (a, b)) x y =
           (if (x, y) = (a, b) then color_bit c (pixel_of W buf x y) else pixel_of W buf x y)"
proof (cases "pixel_index W x y = pixel_index W a b")
  case False
  with pixel_index_eq_iff [OF assms(1-6)] have ne: "((x, y) = (a, b)) = False" by auto
  from False have nth: "draw_pixel_naive W c buf (a, b) ! pixel_index W x y = buf ! pixel_index W x y"
    by (simp add: draw_pixel_naive_def Let_def)
  show ?thesis by (simp only: pixel_of_def nth ne if_False)
next
  case True
  with pixel_index_eq_iff [OF assms(1-6)] have xa: "x = a" and q: "y div 8 = b div 8" by auto
  have k: "nat (y mod 8) < 8" "nat (b mod 8) < 8" by (simp_all add: nat_less_iff)
  from q same_row_iff [of y b] have r: "nat (y mod 8) = nat (b mod 8) \<longleftrightarrow> y = b" by simp
  let ?i = "pixel_index W a b"
  let ?k = "nat (b mod 8)"
  have pb: "possible_bit TYPE(8 word) (nat (y mod 8))" using k by simp
  have upd: "buf[?i := v] ! ?i = v" for v using assms(7) by simp
  consider "c = SSD1315_WHITE" | "c = SSD1315_BLACK" | "c = SSD1315_INVERSE"
    | "c \<noteq> SSD1315_WHITE" "c \<noteq> SSD1315_BLACK" "c \<noteq> SSD1315_INVERSE"
    by argo
  then have "bit (draw_pixel_naive W c buf (a, b) ! ?i) (nat (y mod 8)) =
      (if nat (y mod 8) = ?k then color_bit c (bit (buf ! ?i) (nat (y mod 8)))
       else bit (buf ! ?i) (nat (y mod 8)))"
  proof cases
    case 1
    then show ?thesis using pb
      by (auto simp add: draw_pixel_naive_def Let_def upd color_bit_def bit_set_bit_iff)
  next
    case 2
    then show ?thesis using pb
      by (auto simp add: draw_pixel_naive_def Let_def upd color_bit_def color_defs
          bit_unset_bit_iff)
  next
    case 3
    then show ?thesis using pb
      by (auto simp add: draw_pixel_naive_def Let_def upd color_bit_def color_defs
          bit_flip_bit_iff)
  next
    case 4
    then show ?thesis
      by (simp add: draw_pixel_naive_def Let_def color_bit_def)
  qed
  then show ?thesis
    using True r xa by (auto simp add: pixel_of_def)
qed

lemma pixel_of_foldl_naive:
  assumes x: "0 \<le> x" "x < W" "0 \<le> y"
    and ps: "\<forall>(a, b) \<in> set ps. 0 \<le> a \<and> a < W \<and> 0 \<le> b \<and> pixel_index W a b < length buf"
    and d: "distinct ps"
  shows "pixel_of W (foldl (draw_pixel_naive W c) buf ps) x y =
           (if (x, y) \<in> set ps then color_bit c (pixel_of W buf x y) else pixel_of W buf x y)"
  using ps d
proof (induction ps arbitrary: buf)
  case Nil
  then show ?case by simp
next
  case (Cons p ps)
  obtain a b where p: "p = (a, b)" by (cases p)
  let ?buf = "draw_pixel_naive W c buf (a, b)"
  from Cons.prems(1) p have ab: "0 \<le> a" "a < W" "0 \<le> b" "pixel_index W a b < length buf"
    by auto
  have one: "pixel_of W ?buf x y =
      (if (x, y) = (a, b) then color_bit c (pixel_of W buf x y) else pixel_of W buf x y)"
    using x ab by (rule pixel_of_draw_pixel_naive)
  from Cons.prems(1) have "\<forall>(a, b) \<in> set ps. 0 \<le> a \<and> a < W \<and> 0 \<le> b \<and> pixel_index W a b < length ?buf"
    by auto
  moreover from Cons.prems(2) have "distinct ps" by simp
  ultimately have ih: "pixel_of W (foldl (draw_pixel_naive W c) ?buf ps) x y =
      (if (x, y) \<in> set ps then color_bit c (pixel_of W ?buf x y) else pixel_of W ?buf x y)"
    by (rule Cons.IH)
  from Cons.prems(2) p have notin: "(a, b) \<notin> set ps" by simp
  have f: "foldl (draw_pixel_naive W c) buf (p # ps) = foldl (draw_pixel_naive W c) ?buf ps"
    by (simp add: p)
  show ?case
  proof (cases "(x, y) = (a, b)")
    case True
    with notin have n: "((x, y) \<in> set ps) = False" by simp
    from True p have m: "((x, y) \<in> set (p # ps)) = True" by simp
    from one True have e: "pixel_of W ?buf x y = color_bit c (pixel_of W buf x y)"
      by simp
    show ?thesis by (simp only: f ih e m n if_True if_False)
  next
    case False
    with p have m: "((x, y) \<in> set (p # ps)) = ((x, y) \<in> set ps)" by auto
    from False have nf: "((x, y) = (a, b)) = False" by (simp only: simp_thms)
    from one have e: "pixel_of W ?buf x y = pixel_of W buf x y"
      by (simp only: nf if_False)
    show ?thesis by (simp only: f ih e m)
  qed
qed

lemma length_foldl_naive [simp]:
  "length (foldl (draw_pixel_naive W c) buf ps) = length buf"
  by (induction ps arbitrary: buf) simp_all

lemma rows_le_pages: "0 \<le> HEIGHT s \<Longrightarrow> HEIGHT s \<le> 8 * pages s"
  by (simp add: pages_eq)

lemma set_vline_pixels:
  "(x', y') \<in> set (vline_pixels s x y h) \<longleftrightarrow>
     x' = x \<and> 0 \<le> x \<and> x < WIDTH s \<and> max y 0 \<le> y' \<and> y' < min (y + h) (HEIGHT s)"
  by (auto simp add: vline_pixels_def)

lemma distinct_vline_pixels: "distinct (vline_pixels s x y h)"
  by (simp add: vline_pixels_def distinct_map inj_on_def)

section \<open>The vertical primitive against the naive reference\<close>

lemma in_buffer_cong:
  "WIDTH s' = WIDTH s \<Longrightarrow> HEIGHT s' = HEIGHT s \<Longrightarrow> in_buffer s' x y = in_buffer s x y"
  by (simp add: in_buffer_def pages_def)

lemma well_formed_blank: "0 \<le> w \<Longrightarrow> 0 \<le> h \<Longrightarrow> well_formed (blank w h r)"
proof -
  assume "0 \<le> w" "0 \<le> h"
  then have "0 \<le> w * toInt_div (h + 7) 8" by (simp add: toInt_div_def)
  then show ?thesis
    using \<open>0 \<le> w\<close> \<open>0 \<le> h\<close> by (simp add: well_formed_def buffer_size_def blank_def)
qed

lemma vline_example:
  "buffer (drawFastVLineInternal (blank 2 24 0) 1 3 15 SSD1315_WHITE) = [0, 0xF8, 0, 0xFF, 0, 0x03]"
  by (simp add: blank_def toInt_div_def drawFastVLineInternal_def vline_body_def vline_rest_def
      whole_bytes.simps mask_byte_def buffer_rmw_def adjust_dirty_window_def js_and_7 color_defs
      SSD1315_VLINE_PRE_MASK_def SSD1315_VLINE_POST_MASK_def Let_def numeral_eq_Suc)

text \<open>
  Claim C4. On a display whose buffer has the size the constructor gives it, for every
  \<open>x\<close>, \<open>y\<close> and \<open>h\<close> and every colour among BLACK, WHITE and INVERSE, the optimized
  vertical primitive (leading partial byte masked with \<open>SSD1315_VLINE_PRE_MASK\<close>, whole
  bytes eight rows at a time, trailing partial byte masked with
  \<open>SSD1315_VLINE_POST_MASK\<close>) leaves the buffer equal to that of the naive reference,
  which sets, clears or toggles one clipped pixel of the run at a time.
\<close>

theorem vline_refines_naive:
  assumes wf: "well_formed s"
    and c: "color = SSD1315_BLACK \<or> color = SSD1315_WHITE \<or> color = SSD1315_INVERSE"
  shows "buffer (drawFastVLineInternal s x y h color) = naive_vline s x y h color"
proof -
  let ?s' = "drawFastVLineInternal s x y h color"
  let ?W = "WIDTH s"
  let ?ps = "vline_pixels s x y h"
  from c have c': "color = SSD1315_WHITE \<or> color = SSD1315_BLACK \<or> color = SSD1315_INVERSE"
    by blast
  have wf': "well_formed ?s'" using wf by (rule vline_well_formed)
  have len: "length (naive_vline s x y h color) = length (buffer ?s')"
    by (simp add: naive_vline_def vline_frame)
  have H: "0 \<le> HEIGHT s" using wf by (simp add: well_formed_def)
  have ps: "\<forall>(a, b) \<in> set ?ps. 0 \<le> a \<and> a < ?W \<and> 0 \<le> b \<and> pixel_index ?W a b < length (buffer s)"
  proof (clarify)
    fix a b assume "(a, b) \<in> set ?ps"
    then have ab: "a = x" "0 \<le> x" "x < ?W" "max y 0 \<le> b" "b < min (y + h) (HEIGHT s)"
      by (simp_all add: set_vline_pixels)
    with rows_le_pages [OF H] have "in_buffer s a b" by (simp add: in_buffer_def)
    with wf have "pixel_index ?W a b < length (buffer s)" by (rule pixel_index_in_buffer)
    with ab show "0 \<le> a \<and> a < ?W \<and> 0 \<le> b \<and> pixel_index ?W a b < length (buffer s)" by simp
  qed
  have px: "pixel_of (WIDTH ?s') (naive_vline s x y h color) x' y' = pixel ?s' x' y'"
    if "in_buffer ?s' x' y'" for x' y'
  proof -
    from that have ib: "in_buffer s x' y'"
      by (simp only: in_buffer_cong [of ?s' s, OF vline_frame(1,2)])
    then have x': "0 \<le> x'" "x' < ?W" "0 \<le> y'" by (simp_all add: in_buffer_def)
    have m: "((x', y') \<in> set ?ps) = (x' = x \<and> max y 0 \<le> y' \<and> y' < min (y + h) (HEIGHT s))"
      using x' by (auto simp add: set_vline_pixels)
    have a: "pixel_of ?W (naive_vline s x y h color) x' y' =
        (if (x', y') \<in> set ?ps then color_bit color (pixel_of ?W (buffer s) x' y')
         else pixel_of ?W (buffer s) x' y')"
      unfolding naive_vline_def using x' ps distinct_vline_pixels by (rule pixel_of_foldl_naive)
    have b: "pixel ?s' x' y' =
        (if x' = x \<and> max y 0 \<le> y' \<and> y' < min (y + h) (HEIGHT s)
         then color_bit color (pixel s x' y') else pixel s x' y')"
      by (rule vline_pixel [OF wf ib c'])
    note b' = b [unfolded pixel_def vline_frame]
    show ?thesis
      unfolding pixel_def vline_frame a m b' by (rule refl)
  qed
  from buffer_eqI [OF wf' len px] show ?thesis by simp
qed

theorem vline_refines_naive_witness:
  "well_formed (blank 2 24 0) \<and>
   naive_vline (blank 2 24 0) 1 3 15 SSD1315_WHITE = [0, 0xF8, 0, 0xFF, 0, 0x03]"
  using vline_refines_naive [of "blank 2 24 0" SSD1315_WHITE 1 3 15]
  by (simp add: well_formed_blank vline_example)

section \<open>Clipping of horizontal runs\<close>

lemma hline_buffer:
  "buffer (drawFastHLineInternal s x y w color) =
     (if 0 \<le> y \<and> y < HEIGHT s \<and> max x 0 < min (x + w) (WIDTH s)
      then range_upd (max x 0 + (y div 8) * WIDTH s) (nat (min (x + w) (WIDTH s) - max x 0))
             (part_byte color (push_bit (nat (y mod 8)) 1)) (buffer s)
      else buffer s)"
  by (subst drawFastHLineInternal_eq) (simp add: adjust_dirty_window_def)

lemma hline_touched_eq:
  "touched (drawFastHLineInternal s x y w color) =
     touched s @
     (if 0 \<le> y \<and> y < HEIGHT s \<and> max x 0 < min (x + w) (WIDTH s)
      then hline_touched color (max x 0 + (y div 8) * WIDTH s)
             (nat (min (x + w) (WIDTH s) - max x 0))
      else [])"
  by (subst drawFastHLineInternal_eq) (simp add: adjust_dirty_window_def)

lemma hline_example:
  "buffer (drawFastHLineInternal (blank 20 8 0) (- 5) 0 10 SSD1315_WHITE) =
     [1, 1, 1, 1, 1, 0, 0, 0, 0, 0, 0, 0, 0, 0, 0, 0, 0, 0, 0, 0]"
  by (simp add: blank_def toInt_div_def drawFastHLineInternal_def buffer_rmw_def
      adjust_dirty_window_def js_and_7 color_defs Let_def numeral_eq_Suc)

text \<open>
  Claim C5. A horizontal run is clipped exactly to \<open>[0, WIDTH) x [0, HEIGHT)\<close>. When its
  row is out of range or it lies fully outside the columns, no byte of the buffer
  changes. In general the buffer keeps its length and, for every pixel that has a bit in
  the buffer, the pixel is changed by the colour's operation exactly when it is on row
  \<open>y\<close> (in range) and in columns \<open>x .. x + w - 1\<close>, and keeps its value otherwise. The run
  from \<open>x = -5\<close> of length 10 on a display 20 wide is evaluated in \<open>hline_example\<close>:
  bytes 0 to 4 are written, no other.
\<close>

theorem hline_clipping:
  assumes wf: "well_formed s"
  shows "(y < 0 \<or> HEIGHT s \<le> y \<or> x + w \<le> 0 \<or> WIDTH s \<le> x \<longrightarrow>
            buffer (drawFastHLineInternal s x y w color) = buffer s) \<and>
         length (buffer (drawFastHLineInternal s x y w color)) = length (buffer s) \<and>
         (in_buffer s x' y' \<longrightarrow>
            pixel (drawFastHLineInternal s x y w color) x' y' =
              (if y' = y \<and> 0 \<le> y \<and> y < HEIGHT s \<and> x \<le> x' \<and> x' < x + w
               then color_bit color (pixel s x' y') else pixel s x' y'))"
proof (intro conjI impI)
  assume out: "y < 0 \<or> HEIGHT s \<le> y \<or> x + w \<le> 0 \<or> WIDTH s \<le> x"
  from wf have "0 \<le> WIDTH s" by (simp add: well_formed_def)
  with out have "\<not> (0 \<le> y \<and> y < HEIGHT s \<and> max x 0 < min (x + w) (WIDTH s))"
    by auto
  then show "buffer (drawFastHLineInternal s x y w color) = buffer s"
    by (simp only: hline_buffer if_False)
next
  show "length (buffer (drawFastHLineInternal s x y w color)) = length (buffer s)"
    by (rule hline_frame)
next
  assume "in_buffer s x' y'"
  with wf show "pixel (drawFastHLineInternal s x y w color) x' y' =
              (if y' = y \<and> 0 \<le> y \<and> y < HEIGHT s \<and> x \<le> x' \<and> x' < x + w
               then color_bit color (pixel s x' y') else pixel s x' y')"
    by (rule hline_pixel)
qed

theorem hline_clipping_witness:
  "well_formed (blank 20 8 0) \<and>
   pixel (drawFastHLineInternal (blank 20 8 0) (- 5) 0 10 SSD1315_WHITE) 0 0 \<and>
   pixel (drawFastHLineInternal (blank 20 8 0) (- 5) 0 10 SSD1315_WHITE) 4 0 \<and>
   \<not> pixel (drawFastHLineInternal (blank 20 8 0) (- 5) 0 10 SSD1315_WHITE) 5 0 \<and>
   \<not> pixel (drawFastHLineInternal (blank 20 8 0) (- 5) 0 10 SSD1315_WHITE) 4 1 \<and>
   buffer (drawFastHLineInternal (blank 20 8 0) (- 5) 8 10 SSD1315_WHITE) = buffer (blank 20 8 0)"
proof -
  have wf: "well_formed (blank 20 8 0)" by (simp add: well_formed_blank)
  have ib: "in_buffer (blank 20 8 0) 0 0" "in_buffer (blank 20 8 0) 4 0"
    "in_buffer (blank 20 8 0) 5 0" "in_buffer (blank 20 8 0) 4 1"
    by (simp_all add: in_buffer_def pages_def toInt_div_def blank_def)
  have px: "pixel (blank 20 8 0) 0 0 = False" "pixel (blank 20 8 0) 4 0 = False"
    "pixel (blank 20 8 0) 5 0 = False" "pixel (blank 20 8 0) 4 1 = False"
    by (simp_all add: pixel_def pixel_of_def pixel_index_def blank_def toInt_div_def)
  have d: "HEIGHT (blank 20 8 0) = 8" "WIDTH (blank 20 8 0) = 20" by (simp_all add: blank_def)
  show ?thesis
    using hline_clipping [OF wf, of 0 "- 5" 10 SSD1315_WHITE 0 0]
      hline_clipping [OF wf, of 0 "- 5" 10 SSD1315_WHITE 4 0]
      hline_clipping [OF wf, of 0 "- 5" 10 SSD1315_WHITE 5 0]
      hline_clipping [OF wf, of 0 "- 5" 10 SSD1315_WHITE 4 1]
      hline_clipping [OF wf, of 8 "- 5" 10 SSD1315_WHITE 0 0]
    by (simp add: wf ib px d color_bit_def)
qed

section \<open>Indices the primitives access\<close>

lemma buffer_size_pages: "buffer_size s = pages s * WIDTH s"
  by (simp add: buffer_size_def pages_def mult.commute)

lemma column_index_in_bounds:
  assumes "0 \<le> a" "a < WIDTH s" "0 \<le> q" "q < pages s"
  shows "0 \<le> a + q * WIDTH s \<and> a + q * WIDTH s < buffer_size s"
proof -
  have "a + q * WIDTH s < 0 + pages s * WIDTH s"
    using assms by (subst index_less_iff) auto
  moreover have "0 \<le> q * WIDTH s" using assms by simp
  ultimately show ?thesis using assms(1) by (simp add: buffer_size_pages)
qed

lemma hline_indices:
  assumes wf: "well_formed s"
    and i: "i \<in> set (drop (length (touched s)) (touched (drawFastHLineInternal s x y w color)))"
  shows "0 \<le> i \<and> i < buffer_size s"
proof (cases "0 \<le> y \<and> y < HEIGHT s \<and> max x 0 < min (x + w) (WIDTH s)")
  case False
  have "touched (drawFastHLineInternal s x y w color) = touched s @ []"
    by (subst hline_touched_eq) (simp only: if_not_P [OF False])
  with i show ?thesis by simp
next
  case True
  define n where "n = nat (min (x + w) (WIDTH s) - max x 0)"
  have "touched (drawFastHLineInternal s x y w color) =
      touched s @ hline_touched color (max x 0 + (y div 8) * WIDTH s) n"
    by (subst hline_touched_eq) (simp only: if_P [OF True] n_def)
  with i have "i \<in> set (hline_touched color (max x 0 + (y div 8) * WIDTH s) n)" by simp
  then have "i \<in> set (map (\<lambda>k. max x 0 + (y div 8) * WIDTH s + int k) [0..<n])"
    by (cases "color = SSD1315_WHITE \<or> color = SSD1315_BLACK \<or> color = SSD1315_INVERSE")
      (simp_all add: hline_touched_def)
  then obtain k where k: "k < n" and ik: "i = max x 0 + (y div 8) * WIDTH s + int k"
    by auto
  from wf have H: "0 \<le> HEIGHT s" by (simp add: well_formed_def)
  from True have "y < 8 * pages s" using rows_le_pages [OF H] by simp
  with True have q: "0 \<le> y div 8" "y div 8 < pages s" by auto
  from k True have a: "0 \<le> max x 0 + int k" "max x 0 + int k < WIDTH s"
    by (auto simp add: n_def)
  from column_index_in_bounds [OF a q] show ?thesis by (simp add: ik algebra_simps)
qed

lemma vline_indices:
  assumes wf: "well_formed s"
    and i: "i \<in> set (drop (length (touched s)) (touched (drawFastVLineInternal s x y h color)))"
  shows "0 \<le> i \<and> i < buffer_size s"
proof (cases rule: vline_cases [of x s y h color])
  case noop
  with i show ?thesis by simp
next
  case (draw T)
  from i have "i \<in> set T" unfolding draw(2) by (simp add: adjust_dirty_window_def)
  with draw(3) have "i \<in> (\<lambda>q. x + q * WIDTH s) ` {max y 0 div 8 ..< (min (y + h) (HEIGHT s) + 7) div 8}"
    by (rule subsetD)
  then obtain q where q: "max y 0 div 8 \<le> q" "q < (min (y + h) (HEIGHT s) + 7) div 8"
    and iq: "i = x + q * WIDTH s"
    by auto
  from wf have H: "0 \<le> HEIGHT s" by (simp add: well_formed_def)
  have "(min (y + h) (HEIGHT s) + 7) div 8 \<le> (HEIGHT s + 7) div 8"
    by (intro zdiv_mono1) auto
  with q H have q': "0 \<le> q" "q < pages s" by (auto simp add: pages_eq)
  from draw(1) have a: "0 \<le> x" "x < WIDTH s" by simp_all
  from column_index_in_bounds [OF a q'] show ?thesis by (simp add: iq)
qed

lemma hline_touched_prefix:
  "take (length (touched s)) (touched (drawFastHLineInternal s x y w color)) = touched s"
  by (subst hline_touched_eq) simp

lemma vline_touched_prefix:
  "take (length (touched s)) (touched (drawFastVLineInternal s x y h color)) = touched s"
  by (cases rule: vline_cases [of x s y h color]) (simp_all add: adjust_dirty_window_def)

lemma vline_touched_example:
  "touched (drawFastVLineInternal (blank 2 24 0) 1 (- 3) 200 SSD1315_INVERSE) = [1, 3, 5]"
  by (simp add: blank_def toInt_div_def drawFastVLineInternal_def vline_body_def vline_rest_def
      whole_bytes.simps mask_byte_def buffer_rmw_def adjust_dirty_window_def js_and_7 color_defs
      SSD1315_VLINE_PRE_MASK_def SSD1315_VLINE_POST_MASK_def Let_def numeral_eq_Suc)

text \<open>
  Claim C6. On a display whose buffer has the size the constructor gives it
  (\<open>WIDTH * ceil (HEIGHT / 8)\<close> bytes), for arbitrary integer arguments, every index with
  which \<open>_drawFastHLineInternal\<close> or \<open>_drawFastVLineInternal\<close> subscripts the buffer lies
  in \<open>[0, WIDTH * ceil (HEIGHT / 8))\<close>. The indices of a call are those the call appends to
  the log \<open>touched\<close>.
\<close>

theorem line_indices_in_bounds:
  assumes wf: "well_formed s"
  shows "buffer_size s = int (length (buffer s)) \<and>
         take (length (touched s)) (touched (drawFastHLineInternal s x y w color)) = touched s \<and>
         (\<forall>i \<in> set (drop (length (touched s)) (touched (drawFastHLineInternal s x y w color))).
            0 \<le> i \<and> i < buffer_size s) \<and>
         take (length (touched s)) (touched (drawFastVLineInternal s x y w color)) = touched s \<and>
         (\<forall>i \<in> set (drop (length (touched s)) (touched (drawFastVLineInternal s x y w color))).
            0 \<le> i \<and> i < buffer_size s)"
  using wf hline_indices [OF wf] vline_indices [OF wf]
  by (simp add: well_formed_def hline_touched_prefix vline_touched_prefix)

theorem line_indices_in_bounds_witness:
  "well_formed (blank 2 24 0) \<and>
   list_all (\<lambda>i. 0 \<le> i \<and> i < 6)
     (touched (drawFastHLineInternal (blank 2 24 0) (- 7) 23 100 SSD1315_WHITE)) \<and>
   list_all (\<lambda>i. 0 \<le> i \<and> i < 6)
     (touched (drawFastVLineInternal (blank 2 24 0) 1 (- 3) 200 SSD1315_INVERSE))"
proof -
  have wf: "well_formed (blank 2 24 0)" by (simp add: well_formed_blank)
  have s: "buffer_size (blank 2 24 0) = 6" "touched (blank 2 24 0) = []"
    by (simp_all add: buffer_size_def toInt_div_def blank_def)
  show ?thesis
    using line_indices_in_bounds [OF wf, of "- 7" 23 100 SSD1315_WHITE]
      line_indices_in_bounds [OF wf, of 1 "- 3" 200 SSD1315_INVERSE]
    by (simp add: wf s list_all_iff)
qed

section \<open>WHITE, BLACK and INVERSE\<close>

lemma apply_draw_frame:
  "WIDTH (apply_draw s d) = WIDTH s"
  "HEIGHT (apply_draw s d) = HEIGHT s"
  "bus (apply_draw s d) = bus s"
  "length (buffer (apply_draw s d)) = length (buffer s)"
  by (cases d; simp add: hline_frame vline_frame)+

lemma apply_draws_frame:
  "WIDTH (apply_draws s ds) = WIDTH s \<and> HEIGHT (apply_draws s ds) = HEIGHT s \<and>
   bus (apply_draws s ds) = bus s \<and> length (buffer (apply_draws s ds)) = length (buffer s)"
  unfolding apply_draws_def
  by (induction ds arbitrary: s) (simp_all add: apply_draw_frame)

lemma apply_draws_well_formed: "well_formed s \<Longrightarrow> well_formed (apply_draws s ds)"
  by (simp add: well_formed_def buffer_size_def apply_draws_frame)

lemma hline_inverse_twice:
  assumes wf: "well_formed s"
  shows "buffer (drawFastHLineInternal (drawFastHLineInternal s x y w SSD1315_INVERSE)
           x y w SSD1315_INVERSE) = buffer s"
proof -
  let ?s1 = "drawFastHLineInternal s x y w SSD1315_INVERSE"
  let ?s2 = "drawFastHLineInternal ?s1 x y w SSD1315_INVERSE"
  have wf1: "well_formed ?s1" using wf by (rule hline_well_formed)
  have len: "length (buffer ?s2) = length (buffer s)" by (simp add: hline_frame)
  have px: "pixel_of (WIDTH s) (buffer ?s2) x' y' = pixel s x' y'" if ib: "in_buffer s x' y'" for x' y'
  proof -
    from ib have ib1: "in_buffer ?s1 x' y'"
      by (simp only: in_buffer_cong [of ?s1 s, OF hline_frame(1,2)])
    have "pixel ?s2 x' y' = pixel s x' y'"
      unfolding hline_pixel [OF wf1 ib1] hline_pixel [OF wf ib] hline_frame
      by (simp add: color_bit_def color_defs)
    then show ?thesis by (simp add: pixel_def hline_frame)
  qed
  from wf len px show ?thesis by (rule buffer_eqI)
qed

lemma vline_inverse_twice:
  assumes wf: "well_formed s"
  shows "buffer (drawFastVLineInternal (drawFastVLineInternal s x y h SSD1315_INVERSE)
           x y h SSD1315_INVERSE) = buffer s"
proof -
  let ?s1 = "drawFastVLineInternal s x y h SSD1315_INVERSE"
  let ?s2 = "drawFastVLineInternal ?s1 x y h SSD1315_INVERSE"
  have c: "SSD1315_INVERSE = SSD1315_WHITE \<or> SSD1315_INVERSE = SSD1315_BLACK \<or>
      SSD1315_INVERSE = SSD1315_INVERSE"
    by simp
  have wf1: "well_formed ?s1" using wf by (rule vline_well_formed)
  have len: "length (buffer ?s2) = length (buffer s)" by (simp add: vline_frame)
  have px: "pixel_of (WIDTH s) (buffer ?s2) x' y' = pixel s x' y'" if ib: "in_buffer s x' y'" for x' y'
  proof -
    from ib have ib1: "in_buffer ?s1 x' y'"
      by (simp only: in_buffer_cong [of ?s1 s, OF vline_frame(1,2)])
    have "pixel ?s2 x' y' = pixel s x' y'"
      unfolding vline_pixel [OF wf1 ib1 c] vline_pixel [OF wf ib c] vline_frame
      by (simp add: color_bit_def color_defs)
    then show ?thesis by (simp add: pixel_def vline_frame)
  qed
  from wf len px show ?thesis by (rule buffer_eqI)
qed

text \<open>
  Claim C9. On a display whose buffer has the size the constructor gives it: for every
  pixel \<open>(x, y)\<close> of the display, drawing it WHITE, then any sequence \<open>ds\<close> of runs of the
  two primitives (any colours, so also any even number of INVERSE draws over the pixel),
  then drawing it BLACK leaves its bit 0; and two successive INVERSE runs over the same
  region, horizontal or vertical, give back the buffer bytes there were before.
\<close>

theorem white_black_and_inverse_twice:
  assumes wf: "well_formed s"
  shows "(0 \<le> x \<and> x < WIDTH s \<and> 0 \<le> y \<and> y < HEIGHT s \<longrightarrow>
           \<not> pixel (drawFastHLineInternal
                      (apply_draws (drawFastHLineInternal s x y 1 SSD1315_WHITE) ds)
                      x y 1 SSD1315_BLACK) x y) \<and>
         buffer (drawFastHLineInternal (drawFastHLineInternal s x' y' w SSD1315_INVERSE)
                   x' y' w SSD1315_INVERSE) = buffer s \<and>
         buffer (drawFastVLineInternal (drawFastVLineInternal s x' y' h SSD1315_INVERSE)
                   x' y' h SSD1315_INVERSE) = buffer s"
proof (intro conjI impI)
  assume xy: "0 \<le> x \<and> x < WIDTH s \<and> 0 \<le> y \<and> y < HEIGHT s"
  let ?s1 = "apply_draws (drawFastHLineInternal s x y 1 SSD1315_WHITE) ds"
  have d: "WIDTH ?s1 = WIDTH s" "HEIGHT ?s1 = HEIGHT s"
    by (simp_all add: apply_draws_frame hline_frame)
  have wf1: "well_formed ?s1"
    using wf by (intro apply_draws_well_formed hline_well_formed)
  from wf have H: "0 \<le> HEIGHT s" by (simp add: well_formed_def)
  from xy rows_le_pages [OF H] have "in_buffer s x y" by (simp add: in_buffer_def)
  then have ib: "in_buffer ?s1 x y" by (simp only: in_buffer_cong [of ?s1 s, OF d])
  show "\<not> pixel (drawFastHLineInternal ?s1 x y 1 SSD1315_BLACK) x y"
    unfolding hline_pixel [OF wf1 ib] d using xy by (simp add: color_bit_def color_defs)
next
  show "buffer (drawFastHLineInternal (drawFastHLineInternal s x' y' w SSD1315_INVERSE)
                   x' y' w SSD1315_INVERSE) = buffer s"
    using wf by (rule hline_inverse_twice)
next
  show "buffer (drawFastVLineInternal (drawFastVLineInternal s x' y' h SSD1315_INVERSE)
                   x' y' h SSD1315_INVERSE) = buffer s"
    using wf by (rule vline_inverse_twice)
qed

theorem white_black_and_inverse_twice_witness:
  "well_formed (blank 8 8 0) \<and>
   \<not> pixel (drawFastHLineInternal
              (apply_draws (drawFastHLineInternal (blank 8 8 0) 3 2 1 SSD1315_WHITE)
                 [HRun 3 2 1 SSD1315_INVERSE, VRun 3 0 8 SSD1315_INVERSE])
              3 2 1 SSD1315_BLACK) 3 2 \<and>
   buffer (drawFastHLineInternal (drawFastHLineInternal (blank 8 8 0) (- 2) 1 6 SSD1315_INVERSE)
             (- 2) 1 6 SSD1315_INVERSE) = buffer (blank 8 8 0) \<and>
   buffer (drawFastVLineInternal (drawFastVLineInternal (blank 8 8 0) (- 2) 1 12 SSD1315_INVERSE)
             (- 2) 1 12 SSD1315_INVERSE) = buffer (blank 8 8 0)"
proof -
  have wf: "well_formed (blank 8 8 0)" by (simp add: well_formed_blank)
  have d: "WIDTH (blank 8 8 0) = 8" "HEIGHT (blank 8 8 0) = 8" by (simp_all add: blank_def)
  show ?thesis
    using white_black_and_inverse_twice [OF wf, of 3 2
        "[HRun 3 2 1 SSD1315_INVERSE, VRun 3 0 8 SSD1315_INVERSE]" "- 2" 1 6 12]
    by (simp add: wf d)
qed

section \<open>Colours outside the switch, and the dirty window of one run\<close>

lemma dirty_window_adjust:
  "dirty_window (adjust_dirty_window a b c d s) = union_rect (dirty_window s) (a, b, c, d)"
  by (simp add: dirty_window_def adjust_dirty_window_def)

lemma dirty_window_fields [simp]:
  "dirty_window (s\<lparr>buffer := bf\<rparr>) = dirty_window s"
  "dirty_window (s\<lparr>touched := t\<rparr>) = dirty_window s"
  "dirty_window (s\<lparr>bus := bs\<rparr>) = dirty_window s"
  by (simp_all add: dirty_window_def)

lemma dirty_window_apply_draw:
  "dirty_window (apply_draw s d) =
     (case clip_rect s d of None \<Rightarrow> dirty_window s | Some r \<Rightarrow> union_rect (dirty_window s) r)"
proof (cases d)
  case (HRun x y w c)
  show ?thesis
    unfolding HRun apply_draw.simps clip_rect.simps
    by (subst drawFastHLineInternal_eq) (simp add: dirty_window_adjust)
next
  case (VRun x y h c)
  show ?thesis
  proof (cases rule: vline_cases [of x s y h c])
    case noop
    have "clip_rect s (VRun x y h c) = None"
      by (simp only: clip_rect.simps if_not_P [OF noop(1)])
    with noop(2) show ?thesis unfolding VRun by simp
  next
    case (draw T)
    have "clip_rect s (VRun x y h c) = Some (x, max y 0, x, min (y + h) (HEIGHT s) - 1)"
      by (simp only: clip_rect.simps if_P [OF draw(1)])
    then show ?thesis unfolding VRun apply_draw.simps draw(2) by (simp add: dirty_window_adjust)
  qed
qed

lemma vline_effect_invalid:
  assumes c: "c \<noteq> SSD1315_BLACK" "c \<noteq> SSD1315_WHITE" "c \<noteq> SSD1315_INVERSE"
    and y: "0 \<le> y" and h: "0 < h"
  shows "vline_effect c y h q b = (if y \<le> 8 * q \<and> 8 * q + 8 \<le> y + h then 0xFF else b)"
proof (rule bit_word_eqI)
  fix k assume "k < LENGTH(8)"
  then have k: "k < 8" by simp
  have e: "(0xFF :: 8 word) = - 1" by simp
  have ff: "bit (0xFF :: 8 word) k" unfolding e using k by (simp add: bit_simps)
  from c have cb: "color_bit c v = v" for v by (simp add: color_bit_def)
  from c ff k have wb: "bit (whole_byte c b) k" by (simp add: bit_whole_byte)
  show "bit (vline_effect c y h q b) k =
      bit (if y \<le> 8 * q \<and> 8 * q + 8 \<le> y + h then 0xFF else b) k"
    unfolding bit_vline_effect [OF y h k] cb using wb ff by simp
qed

lemma col_upd_six:
  "col_upd 2 1 g [a0, a1, a2, a3, a4, a5] = [a0, g 0 a1, a2, g 1 a3, a4, g 2 a5]"
proof -
  have "[0..<length [a0, a1, a2, a3, a4, a5]] = [0, 1, 2, 3, 4, 5]"
    by (simp add: upt_rec)
  then show ?thesis
    unfolding col_upd_def by simp
qed

lemma blank_2_24:
  "buffer (blank 2 24 0) = [0, 0, 0, 0, 0, 0]" "WIDTH (blank 2 24 0) = 2" "HEIGHT (blank 2 24 0) = 24"
  "dirty_window (blank 2 24 0) = (2, 24, - 1, - 1)"
  by (simp_all add: blank_def toInt_div_def dirty_window_def numeral_eq_Suc)

text \<open>
  What the two primitives do with a colour value other than BLACK, WHITE and INVERSE.
  The \<open>switch\<close> statements have no branch for it: a horizontal run that survives clipping
  leaves every byte of the buffer unchanged, and so do the leading and the trailing
  partial byte of a vertical run. The whole-byte loop of the vertical primitive is no
  \<open>switch\<close>: it stores \<open>(color != SSD1315_BLACK) ? 0xFF : 0x00\<close>, so the bytes of the
  column that the run covers whole (all eight rows of a page) become \<open>0xFF\<close>. In both
  primitives the dirty window grows to its union with the clipped rectangle of the run.
\<close>

theorem invalid_color_runs:
  assumes c: "color \<noteq> SSD1315_BLACK" "color \<noteq> SSD1315_WHITE" "color \<noteq> SSD1315_INVERSE"
  shows "(clip_rect s (HRun x y w color) = Some r \<longrightarrow>
            buffer (drawFastHLineInternal s x y w color) = buffer s \<and>
            dirty_window (drawFastHLineInternal s x y w color) = union_rect (dirty_window s) r) \<and>
         (clip_rect s (VRun x y h color) = Some (x1, y1, x2, y2) \<longrightarrow>
            buffer (drawFastVLineInternal s x y h color) =
              col_upd (WIDTH s) x (\<lambda>q b. if y1 \<le> 8 * q \<and> 8 * q + 7 \<le> y2 then 0xFF else b)
                (buffer s) \<and>
            dirty_window (drawFastVLineInternal s x y h color) =
              union_rect (dirty_window s) (x1, y1, x2, y2))"
proof (intro conjI impI)
  assume r: "clip_rect s (HRun x y w color) = Some r"
  from c have "part_byte color m = (\<lambda>b. b)" for m by (auto simp add: part_byte_def fun_eq_iff)
  then show "buffer (drawFastHLineInternal s x y w color) = buffer s"
    by (simp add: hline_buffer range_upd_id)
  from dirty_window_apply_draw [of s "HRun x y w color"] r
  show "dirty_window (drawFastHLineInternal s x y w color) = union_rect (dirty_window s) r"
    by simp
next
  assume r: "clip_rect s (VRun x y h color) = Some (x1, y1, x2, y2)"
  then have cond: "0 \<le> x \<and> x < WIDTH s \<and> max y 0 < min (y + h) (HEIGHT s)"
    and y1: "y1 = max y 0" and y2: "y2 = min (y + h) (HEIGHT s) - 1"
    by (simp_all split: if_splits)
  have y0: "0 \<le> y1" and h0: "0 < y2 + 1 - y1" using cond by (simp_all add: y1 y2)
  have "vline_effect color y1 (y2 + 1 - y1) =
      (\<lambda>q b. if y1 \<le> 8 * q \<and> 8 * q + 7 \<le> y2 then 0xFF else b)"
    by (auto simp add: fun_eq_iff vline_effect_invalid [OF c y0 h0])
  moreover have "min (y + h) (HEIGHT s) - max y 0 = y2 + 1 - y1" by (simp add: y1 y2)
  ultimately show "buffer (drawFastVLineInternal s x y h color) =
      col_upd (WIDTH s) x (\<lambda>q b. if y1 \<le> 8 * q \<and> 8 * q + 7 \<le> y2 then 0xFF else b) (buffer s)"
    using cond by (simp add: vline_buffer y1 [symmetric])
  from dirty_window_apply_draw [of s "VRun x y h color"] r
  show "dirty_window (drawFastVLineInternal s x y h color) =
      union_rect (dirty_window s) (x1, y1, x2, y2)"
    by simp
qed

theorem invalid_color_runs_witness:
  "buffer (drawFastHLineInternal (blank 2 24 0) (- 1) 3 5 3) = buffer (blank 2 24 0) \<and>
   dirty_window (drawFastHLineInternal (blank 2 24 0) (- 1) 3 5 3) = (0, 3, 1, 3) \<and>
   buffer (drawFastVLineInternal (blank 2 24 0) 1 3 15 3) = [0, 0, 0, 0xFF, 0, 0] \<and>
   dirty_window (drawFastVLineInternal (blank 2 24 0) 1 3 15 3) = (1, 3, 1, 17)"
  using invalid_color_runs [where color = 3 and s = "blank 2 24 0" and x = "- 1" and y = 3
      and w = 5 and r = "(0, 3, 1, 3)"]
    invalid_color_runs [where color = 3 and s = "blank 2 24 0" and x = 1 and y = 3
      and h = 15 and ?x1.0 = 1 and ?y1.0 = 3 and ?x2.0 = 1 and ?y2.0 = 17]
  by (simp add: color_defs blank_2_24 col_upd_six)

text \<open>
  Claim C10 fails on the code for a vertical run that covers a whole byte. With colour 3
  on a 1x8 display whose byte is \<open>0x00\<close>, \<open>_drawFastVLineInternal (0, 0, 8, 3)\<close> goes
  through the whole-byte loop and turns the byte into \<open>0xFF\<close>, where the claim has it
  unchanged. The other paths leave the byte alone, as the claim says: the trailing
  partial byte (7 rows from row 0), the leading partial byte (7 rows from row 1) and the
  horizontal primitive.
\<close>

theorem invalid_color_vline_failing_input:
  "3 \<noteq> SSD1315_BLACK \<and> 3 \<noteq> SSD1315_WHITE \<and> 3 \<noteq> SSD1315_INVERSE \<and>
   buffer (blank 1 8 0) = [0x00] \<and>
   buffer (drawFastVLineInternal (blank 1 8 0) 0 0 8 3) = [0xFF] \<and>
   buffer (drawFastVLineInternal (blank 1 8 0) 0 0 7 3) = [0x00] \<and>
   buffer (drawFastVLineInternal (blank 1 8 0) 0 1 7 3) = [0x00] \<and>
   buffer (drawFastHLineInternal (blank 1 8 0) 0 0 1 3) = [0x00]"
  by (simp add: blank_1_8 drawFastVLineInternal_def drawFastHLineInternal_def vline_body_def
      vline_rest_def whole_bytes.simps mask_byte_def buffer_rmw_def adjust_dirty_window_def
      js_and_7 toInt_div_def color_defs SSD1315_VLINE_POST_MASK_def SSD1315_VLINE_PRE_MASK_def
      Let_def)

section \<open>Flushing: what a page of the dirty window puts on the bus\<close>

lemma display_pages_eq:
  "display_pages page pageEnd index colStart to_write s =
     s\<lparr>bus := bus s @
        concat (map (\<lambda>p. page_events s colStart to_write p (index + (p - page) * WIDTH s))
          [page .. pageEnd - 1])\<rparr>"
proof (induction page pageEnd index colStart to_write s rule: display_pages.induct)
  case (1 page pageEnd index colStart to_write s)
  show ?case
  proof (cases "page < pageEnd")
    case False
    then have "[page .. pageEnd - 1] = []" by simp
    with False show ?thesis by (subst display_pages.simps) simp
  next
    case True
    let ?s' = "oled_data (subarray (buffer s) index (index + to_write))
             (oled_commandList
                [SSD1315_PAGE_ADDR, page, page + 1,
                 SSD1315_COLUMN_ADDR, colStart, colStart + to_write - 1] s)"
    have s': "?s' = s\<lparr>bus := bus s @ page_events s colStart to_write page index\<rparr>"
      by (simp add: oled_data_def oled_commandList_def page_events_def)
    have pe: "page_events (s\<lparr>bus := b\<rparr>) = page_events s" for b
      by (simp add: page_events_def fun_eq_iff)
    have ih: "display_pages (page + 1) pageEnd (index + WIDTH s) colStart to_write ?s' =
        ?s'\<lparr>bus := bus ?s' @
          concat (map (\<lambda>p. page_events ?s' colStart to_write p
                     (index + WIDTH s + (p - (page + 1)) * WIDTH ?s'))
            [page + 1 .. pageEnd - 1])\<rparr>"
      using True by (rule "1.IH")
    have idx: "index + WIDTH s + (p - (page + 1)) * WIDTH s = index + (p - page) * WIDTH s" for p
      by (simp add: algebra_simps)
    have up: "[page .. pageEnd - 1] = page # [page + 1 .. pageEnd - 1]"
      using True by (simp add: upto_rec1)
    have "display_pages page pageEnd index colStart to_write s =
        display_pages (page + 1) pageEnd (index + WIDTH s) colStart to_write ?s'"
      using True by (subst display_pages.simps) simp
    also note ih
    finally show ?thesis
      unfolding s' up by (simp add: pe idx)
  qed
qed

lemma display_eq:
  "display e s =
     resetDirtyWindow e
       (if window_x1 s \<le> window_x2 s
        then s\<lparr>bus := bus s @
               concat (map (\<lambda>p. page_events s (window_x1 s) (window_x2 s - window_x1 s + 1) p
                                (window_x1 s + p * WIDTH s))
                 [toInt_div (window_y1 s) 8 .. toInt_div (window_y2 s) 8])\<rparr>
        else s)"
proof -
  have idx: "window_x1 s + toInt_div (window_y1 s) 8 * WIDTH s +
      (p - toInt_div (window_y1 s) 8) * WIDTH s = window_x1 s + p * WIDTH s" for p
    by (simp add: algebra_simps)
  have c: "(0 < window_x2 s - window_x1 s + 1) = (window_x1 s \<le> window_x2 s)" by linarith
  have u: "toInt_div (window_y2 s) 8 + 1 - 1 = toInt_div (window_y2 s) 8" by simp
  show ?thesis
    unfolding display_def Let_def display_pages_eq idx c u by (rule refl)
qed

lemma display_frame:
  "WIDTH (display e s) = WIDTH s"
  "HEIGHT (display e s) = HEIGHT s"
  "buffer (display e s) = buffer s"
  "dirty_window (display e s) = e"
  by (cases e; simp add: display_eq resetDirtyWindow_def dirty_window_def)+

lemma bus_resetDirtyWindow [simp]: "bus (resetDirtyWindow e s) = bus s"
  by (cases e) (simp add: resetDirtyWindow_def)

lemma subarray_columns:
  assumes "0 \<le> a + c" "a \<le> b" "b + c < int (length xs)"
  shows "subarray xs (a + c) (a + c + (b - a + 1)) = map (\<lambda>x. xs ! nat (x + c)) [a .. b]"
proof -
  let ?m = "nat (a + c)"
  let ?n = "nat (b - a + 1)"
  have e: "nat (b + (1 - a)) = nat (b - a + 1)" by (rule arg_cong [where f = nat]) simp
  have sub: "subarray xs (a + c) (a + c + (b - a + 1)) = take ?n (drop ?m xs)"
    using assms by (simp add: subarray_def Let_def min_def e)
  have mn: "?m + ?n \<le> length xs" using assms by linarith
  show ?thesis
  proof (rule nth_equalityI)
    show "length (subarray xs (a + c) (a + c + (b - a + 1))) =
        length (map (\<lambda>x. xs ! nat (x + c)) [a .. b])"
      unfolding sub using mn by simp
  next
    fix i assume "i < length (subarray xs (a + c) (a + c + (b - a + 1)))"
    then have i: "i < ?n" unfolding sub by simp
    then have ib: "a + int i \<le> b" by linarith
    have n: "?m + i = nat (a + int i + c)" using assms(1) by linarith
    have "subarray xs (a + c) (a + c + (b - a + 1)) ! i = xs ! (?m + i)"
      unfolding sub using i mn by simp
    also have "\<dots> = xs ! nat (a + int i + c)" by (simp only: n)
    also have "\<dots> = map (\<lambda>x. xs ! nat (x + c)) [a .. b] ! i"
      using ib i by simp
    finally show "subarray xs (a + c) (a + c + (b - a + 1)) ! i =
        map (\<lambda>x. xs ! nat (x + c)) [a .. b] ! i" .
  qed
qed

text \<open>
  What \<open>display\<close> sends for a window that lies inside the display: for each page from
  \<open>window_y1 div 8\<close> to \<open>window_y2 div 8\<close>, in order, one command list with the page range
  \<open>p, p + 1\<close> and the column range \<open>window_x1, window_x2\<close>, then one data block with the
  bytes of page \<open>p\<close> in the columns \<open>window_x1\<close> to \<open>window_x2\<close>.
\<close>

lemma page_events_columns:
  assumes wf: "well_formed s"
    and x: "0 \<le> x1" "x1 \<le> x2" "x2 < WIDTH s"
    and p: "0 \<le> p" "p < pages s"
  shows "page_events s x1 (x2 - x1 + 1) p (x1 + p * WIDTH s) =
     [CommandList [SSD1315_PAGE_ADDR, p, p + 1, SSD1315_COLUMN_ADDR, x1, x2],
      DataBlock (map (\<lambda>x. buffer s ! nat (x + p * WIDTH s)) [x1 .. x2])]"
proof -
  have a: "0 \<le> x2" "x2 < WIDTH s" using x by simp_all
  from column_index_in_bounds [OF a p] wf
  have hi: "x2 + p * WIDTH s < int (length (buffer s))" by (simp add: well_formed_def)
  have lo: "0 \<le> x1 + p * WIDTH s" using x p by simp
  from subarray_columns [OF lo x(2) hi]
  show ?thesis by (simp add: page_events_def)
qed

lemma display_window_events:
  assumes wf: "well_formed s"
    and w: "0 \<le> window_x1 s \<and> window_x1 s \<le> window_x2 s \<and> window_x2 s < WIDTH s \<and>
          0 \<le> window_y1 s \<and> window_y1 s \<le> window_y2 s \<and> window_y2 s < HEIGHT s"
  shows "bus (display e s) = bus s @
              concat (map (\<lambda>p.
                 [CommandList [SSD1315_PAGE_ADDR, p, p + 1,
                               SSD1315_COLUMN_ADDR, window_x1 s, window_x2 s],
                  DataBlock (map (\<lambda>x. buffer s ! nat (x + p * WIDTH s))
                               [window_x1 s .. window_x2 s])])
                [window_y1 s div 8 .. window_y2 s div 8])"
proof -
  from wf have H: "0 \<le> HEIGHT s" by (simp add: well_formed_def)
  have t: "toInt_div (window_y1 s) 8 = window_y1 s div 8"
    "toInt_div (window_y2 s) 8 = window_y2 s div 8"
    using w by (simp_all add: toInt_div_nonneg)
  have ev: "page_events s (window_x1 s) (window_x2 s - window_x1 s + 1) p
        (window_x1 s + p * WIDTH s) =
      [CommandList [SSD1315_PAGE_ADDR, p, p + 1, SSD1315_COLUMN_ADDR, window_x1 s, window_x2 s],
       DataBlock (map (\<lambda>x. buffer s ! nat (x + p * WIDTH s)) [window_x1 s .. window_x2 s])]"
    if "p \<in> set [window_y1 s div 8 .. window_y2 s div 8]" for p
  proof -
    from that have p: "window_y1 s div 8 \<le> p" "p \<le> window_y2 s div 8" by simp_all
    from w have "0 \<le> window_y1 s div 8" by auto
    with p have p0: "0 \<le> p" by linarith
    from w rows_le_pages [OF H] have "window_y2 s < 8 * pages s" by linarith
    then have "window_y2 s div 8 < pages s" by auto
    with p have p1: "p < pages s" by linarith
    from w show ?thesis by (intro page_events_columns [OF wf _ _ _ p0 p1]) simp_all
  qed
  from w have "bus (display e s) = bus s @
      concat (map (\<lambda>p. page_events s (window_x1 s) (window_x2 s - window_x1 s + 1) p
                                (window_x1 s + p * WIDTH s))
                 [window_y1 s div 8 .. window_y2 s div 8])"
    by (simp add: display_eq t)
  also have "map (\<lambda>p. page_events s (window_x1 s) (window_x2 s - window_x1 s + 1) p
                                (window_x1 s + p * WIDTH s))
                 [window_y1 s div 8 .. window_y2 s div 8] =
      map (\<lambda>p. [CommandList [SSD1315_PAGE_ADDR, p, p + 1,
                               SSD1315_COLUMN_ADDR, window_x1 s, window_x2 s],
                  DataBlock (map (\<lambda>x. buffer s ! nat (x + p * WIDTH s))
                               [window_x1 s .. window_x2 s])])
                [window_y1 s div 8 .. window_y2 s div 8]"
    by (rule map_cong [OF refl]) (rule ev)
  finally show ?thesis .
qed

lemma sentinel_union:
  assumes "empty_sentinel s e"
    and "0 \<le> a1" "a1 \<le> a2" "a2 < WIDTH s" "0 \<le> b1" "b1 \<le> b2" "b2 < HEIGHT s"
  shows "union_rect e (a1, b1, a2, b2) = (a1, b1, a2, b2)"
  using assms by (cases e) (auto simp add: empty_sentinel_def)

lemma display_single_pixel:
  assumes wf: "well_formed s"
    and e: "empty_sentinel s e" "dirty_window s = e" and d: "0 < WIDTH s" "0 < HEIGHT s"
  shows "bus (display e (drawFastHLineInternal s 0 0 1 SSD1315_WHITE)) = bus s @
              [CommandList [SSD1315_PAGE_ADDR, 0, 1, SSD1315_COLUMN_ADDR, 0, 0],
               DataBlock [buffer s ! 0 OR 1]]"
proof -
  let ?s' = "drawFastHLineInternal s 0 0 1 SSD1315_WHITE"
  have wf': "well_formed ?s'" using wf by (rule hline_well_formed)
  have clip: "clip_rect s (HRun 0 0 1 SSD1315_WHITE) = Some (0, 0, 0, 0)"
    using d by simp
  from dirty_window_apply_draw [of s "HRun 0 0 1 SSD1315_WHITE"] clip
  have "dirty_window ?s' = union_rect e (0, 0, 0, 0)" by (simp add: e)
  also have "\<dots> = (0, 0, 0, 0)" using e(1) d by (intro sentinel_union) simp_all
  finally have win: "window_x1 ?s' = 0" "window_y1 ?s' = 0" "window_x2 ?s' = 0" "window_y2 ?s' = 0"
    by (simp_all add: dirty_window_def)
  have w: "0 \<le> window_x1 ?s' \<and> window_x1 ?s' \<le> window_x2 ?s' \<and> window_x2 ?s' < WIDTH ?s' \<and>
          0 \<le> window_y1 ?s' \<and> window_y1 ?s' \<le> window_y2 ?s' \<and> window_y2 ?s' < HEIGHT ?s'"
    using d by (simp add: win hline_frame)
  from d have "1 \<le> (HEIGHT s + 7) div 8" by (simp add: div8_le_iff)
  then have "0 < (HEIGHT s + 7) div 8" by simp
  with d have "0 < WIDTH s * ((HEIGHT s + 7) div 8)" by (simp add: mult_pos_pos)
  moreover from wf d have "int (length (buffer s)) = WIDTH s * ((HEIGHT s + 7) div 8)"
    by (simp add: well_formed_def buffer_size_def toInt_div_def)
  ultimately have "0 < int (length (buffer s))" by (simp only:)
  then have len: "0 < length (buffer s)" by (simp only: of_nat_0_less_iff)
  have b: "buffer ?s' ! 0 = buffer s ! 0 OR 1"
    using d len by (simp add: hline_buffer nth_range_upd part_byte_def)
  from display_window_events [OF wf' w, of e] show ?thesis
    by (simp add: win hline_frame b)
qed

lemma blank_128_64:
  "WIDTH (blank 128 64 0) = 128" "HEIGHT (blank 128 64 0) = 64"
  "dirty_window (blank 128 64 0) = (128, 64, - 1, - 1)" "bus (blank 128 64 0) = []"
  "pages (blank 128 64 0) = 8" "buffer (blank 128 64 0) ! 0 = 0"
  by (simp_all add: blank_def toInt_div_def dirty_window_def pages_def)

text \<open>
  Claim C2 fails on the code in the page range of the command list: \<open>display\<close> sends
  \<open>page, page + 1\<close> where the claim has start and end both equal to the page. The source
  comments at this command say "writing 1 page and to_write columns" and, at
  \<open>SSD1315_PAGE_ADDR\<close>, "start 0x00 end 0x07": the end of a range is inclusive, as the end
  \<open>colStart + to_write - 1\<close> of the column range in the same command list is. On the
  128x64 display, with nothing drawn since the last flush, setting the pixel at (0, 0) (a
  run of one pixel of the horizontal primitive) and flushing sends one command list and
  one data block: the page range is 0, 1, the column range 0, 0 and the data the one
  byte of column 0 in page 0. The page, the column range and the data block are as the
  claim says.
\<close>

theorem display_page_range_failing_input:
  "pages (blank 128 64 0) = 8 \<and> bus (blank 128 64 0) = [] \<and>
   bus (display (128, 64, - 1, - 1)
          (drawFastHLineInternal (blank 128 64 0) 0 0 1 SSD1315_WHITE)) =
     [CommandList [SSD1315_PAGE_ADDR, 0, 1, SSD1315_COLUMN_ADDR, 0, 0], DataBlock [0x01]]"
proof -
  have wf: "well_formed (blank 128 64 0)" by (simp add: well_formed_blank)
  have es: "empty_sentinel (blank 128 64 0) (128, 64, - 1, - 1)"
    by (simp add: empty_sentinel_def blank_128_64)
  show ?thesis
    using display_single_pixel [OF wf es]
    by (simp add: blank_128_64)
qed

section \<open>The dirty window over draws and flushes\<close>

lemma clip_rect_cong:
  "WIDTH s' = WIDTH s \<Longrightarrow> HEIGHT s' = HEIGHT s \<Longrightarrow> clip_rect s' d = clip_rect s d"
  by (cases d) simp_all

lemma clip_rect_bounds:
  assumes "clip_rect s d = Some (a1, b1, a2, b2)"
  shows "0 \<le> a1 \<and> a1 \<le> a2 \<and> a2 < WIDTH s \<and> 0 \<le> b1 \<and> b1 \<le> b2 \<and> b2 < HEIGHT s"
proof (cases d)
  case (HRun x y w c)
  with assms have c: "0 \<le> y" "y < HEIGHT s" "max x 0 < min (x + w) (WIDTH s)"
    and v: "a1 = max x 0" "b1 = y" "a2 = min (x + w) (WIDTH s) - 1" "b2 = y"
    by (simp_all split: if_splits)
  have "0 \<le> max x 0" "max x 0 \<le> min (x + w) (WIDTH s) - 1" "min (x + w) (WIDTH s) - 1 < WIDTH s"
    using c(3) by linarith+
  with c(1,2) show ?thesis unfolding v by simp
next
  case (VRun x y h c)
  with assms have c: "0 \<le> x" "x < WIDTH s" "max y 0 < min (y + h) (HEIGHT s)"
    and v: "a1 = x" "b1 = max y 0" "a2 = x" "b2 = min (y + h) (HEIGHT s) - 1"
    by (simp_all split: if_splits)
  have "0 \<le> max y 0" "max y 0 \<le> min (y + h) (HEIGHT s) - 1"
    "min (y + h) (HEIGHT s) - 1 < HEIGHT s"
    using c(3) by linarith+
  with c(1,2) show ?thesis unfolding v by simp
qed

lemma dirty_window_apply_draws:
  "dirty_window (apply_draws s ds) =
     foldl union_rect (dirty_window s) (List.map_filter (clip_rect s) ds)"
proof (induction ds arbitrary: s)
  case Nil
  show ?case by (simp add: apply_draws_def List.map_filter_simps)
next
  case (Cons d ds)
  have c: "clip_rect (apply_draw s d) = clip_rect s"
    by (rule ext) (rule clip_rect_cong; simp add: apply_draw_frame)
  have "dirty_window (apply_draws s (d # ds)) = dirty_window (apply_draws (apply_draw s d) ds)"
    by (simp add: apply_draws_def)
  also have "\<dots> = foldl union_rect (dirty_window (apply_draw s d))
      (List.map_filter (clip_rect s) ds)"
    by (simp only: Cons.IH c)
  also have "\<dots> = foldl union_rect (dirty_window s) (List.map_filter (clip_rect s) (d # ds))"
    by (cases "clip_rect s d") (simp_all add: dirty_window_apply_draw List.map_filter_simps)
  finally show ?case .
qed

lemma bounding_box_union:
  "bounding_box (union_rect r r' # rs) = bounding_box (r # r' # rs)"
proof -
  obtain a1 b1 a2 b2 where r: "r = (a1, b1, a2, b2)" by (cases r)
  obtain c1 d1 c2 d2 where r': "r' = (c1, d1, c2, d2)" by (cases r')
  have mn: "Min (insert (min a c) (f ` set rs)) = Min (insert a (insert c (f ` set rs)))"
    for a c :: int and f :: "rect \<Rightarrow> int"
    by (cases "rs = []") (simp_all add: min.assoc)
  have mx: "Max (insert (max a c) (f ` set rs)) = Max (insert a (insert c (f ` set rs)))"
    for a c :: int and f :: "rect \<Rightarrow> int"
    by (cases "rs = []") (simp_all add: max.assoc)
  show ?thesis
    unfolding r r' by (simp add: bounding_box_def mn mx)
qed

lemma foldl_union_rect: "foldl union_rect r rs = bounding_box (r # rs)"
proof (induction rs arbitrary: r)
  case Nil
  show ?case by (cases r) (simp add: bounding_box_def)
next
  case (Cons r' rs)
  show ?case by (simp add: Cons.IH bounding_box_union)
qed

lemma Min_map_dominated:
  fixes f :: "rect \<Rightarrow> int"
  assumes "rs \<noteq> []" and "\<forall>r' \<in> set rs. f r' \<le> f r"
  shows "Min (set (map f (r # rs))) = Min (set (map f rs))"
proof -
  have "Min (f ` set rs) \<in> f ` set rs" using assms(1) by (intro Min_in) simp_all
  with assms(2) have "Min (f ` set rs) \<le> f r" by auto
  then show ?thesis using assms(1) by (simp add: min_absorb2)
qed

lemma Max_map_dominated:
  fixes f :: "rect \<Rightarrow> int"
  assumes "rs \<noteq> []" and "\<forall>r' \<in> set rs. f r \<le> f r'"
  shows "Max (set (map f (r # rs))) = Max (set (map f rs))"
proof -
  have "Max (f ` set rs) \<in> f ` set rs" using assms(1) by (intro Max_in) simp_all
  with assms(2) have "f r \<le> Max (f ` set rs)" by auto
  then show ?thesis using assms(1) by (simp add: max_absorb2)
qed

lemma bounding_box_sentinel:
  assumes e: "empty_sentinel s e"
    and rs: "rs \<noteq> []"
    and b: "\<forall>(a1, b1, a2, b2) \<in> set rs. a1 < WIDTH s \<and> b1 < HEIGHT s \<and> 0 \<le> a2 \<and> 0 \<le> b2"
  shows "bounding_box (e # rs) = bounding_box rs"
proof -
  obtain ex1 ey1 ex2 ey2 where e': "e = (ex1, ey1, ex2, ey2)" by (cases e)
  from e have s: "WIDTH s - 1 \<le> ex1" "HEIGHT s - 1 \<le> ey1" "ex2 \<le> 0" "ey2 \<le> 0"
    by (simp_all add: empty_sentinel_def e')
  have r: "a1 \<le> ex1 \<and> b1 \<le> ey1 \<and> ex2 \<le> a2 \<and> ey2 \<le> b2"
    if "(a1, b1, a2, b2) \<in> set rs" for a1 b1 a2 b2
  proof -
    from b that have "a1 < WIDTH s \<and> b1 < HEIGHT s \<and> 0 \<le> a2 \<and> 0 \<le> b2" by blast
    with s show ?thesis by linarith
  qed
  have 1: "\<forall>r' \<in> set rs. (\<lambda>(x1, y1, x2, y2). x1) r' \<le> (\<lambda>(x1, y1, x2, y2). x1) e"
  proof
    fix r' assume "r' \<in> set rs"
    then show "(\<lambda>(x1, y1, x2, y2). x1) r' \<le> (\<lambda>(x1, y1, x2, y2). x1) e"
      using r [of "fst r'" "fst (snd r')" "fst (snd (snd r'))" "snd (snd (snd r'))"]
      by (simp add: e' case_prod_beta)
  qed
  have 2: "\<forall>r' \<in> set rs. (\<lambda>(x1, y1, x2, y2). y1) r' \<le> (\<lambda>(x1, y1, x2, y2). y1) e"
  proof
    fix r' assume "r' \<in> set rs"
    then show "(\<lambda>(x1, y1, x2, y2). y1) r' \<le> (\<lambda>(x1, y1, x2, y2). y1) e"
      using r [of "fst r'" "fst (snd r')" "fst (snd (snd r'))" "snd (snd (snd r'))"]
      by (simp add: e' case_prod_beta)
  qed
  have 3: "\<forall>r' \<in> set rs. (\<lambda>(x1, y1, x2, y2). x2) e \<le> (\<lambda>(x1, y1, x2, y2). x2) r'"
  proof
    fix r' assume "r' \<in> set rs"
    then show "(\<lambda>(x1, y1, x2, y2). x2) e \<le> (\<lambda>(x1, y1, x2, y2). x2) r'"
      using r [of "fst r'" "fst (snd r')" "fst (snd (snd r'))" "snd (snd (snd r'))"]
      by (simp add: e' case_prod_beta)
  qed
  have 4: "\<forall>r' \<in> set rs. (\<lambda>(x1, y1, x2, y2). y2) e \<le> (\<lambda>(x1, y1, x2, y2). y2) r'"
  proof
    fix r' assume "r' \<in> set rs"
    then show "(\<lambda>(x1, y1, x2, y2). y2) e \<le> (\<lambda>(x1, y1, x2, y2). y2) r'"
      using r [of "fst r'" "fst (snd r')" "fst (snd (snd r'))" "snd (snd (snd r'))"]
      by (simp add: e' case_prod_beta)
  qed
  show ?thesis
    unfolding bounding_box_def
    by (simp only: Min_map_dominated [OF rs 1] Min_map_dominated [OF rs 2]
        Max_map_dominated [OF rs 3] Max_map_dominated [OF rs 4])
qed

lemma map_filter_clip_bounds:
  "\<forall>(a1, b1, a2, b2) \<in> set (List.map_filter (clip_rect s) ds).
     a1 < WIDTH s \<and> b1 < HEIGHT s \<and> 0 \<le> a2 \<and> 0 \<le> b2"
proof -
  have "a1 < WIDTH s \<and> b1 < HEIGHT s \<and> 0 \<le> a2 \<and> 0 \<le> b2"
    if "clip_rect s d = Some (a1, b1, a2, b2)" for d a1 b1 a2 b2
    using clip_rect_bounds [OF that] by linarith
  then show ?thesis
    by (auto simp add: List.map_filter_def)
qed

lemma dirty_window_of_draws:
  assumes e: "empty_sentinel s e" and w: "dirty_window s = e"
    and rs: "List.map_filter (clip_rect s) ds \<noteq> []"
  shows "dirty_window (apply_draws s ds) = bounding_box (List.map_filter (clip_rect s) ds)"
  unfolding dirty_window_apply_draws w foldl_union_rect
  using e rs map_filter_clip_bounds by (rule bounding_box_sentinel)

lemma empty_sentinel_cong:
  "WIDTH s' = WIDTH s \<Longrightarrow> HEIGHT s' = HEIGHT s \<Longrightarrow> empty_sentinel s' e = empty_sentinel s e"
  by (cases e) (simp add: empty_sentinel_def)

lemma display_empty_window:
  assumes e: "empty_sentinel s e" and w: "dirty_window s = e"
  shows "bus (display e' s) = bus s"
proof -
  obtain ex1 ey1 ex2 ey2 where e': "e = (ex1, ey1, ex2, ey2)" by (cases e)
  from e have "ex2 < ex1" by (simp add: empty_sentinel_def e')
  moreover from w have "window_x1 s = ex1" "window_x2 s = ex2"
    by (simp_all add: dirty_window_def e')
  ultimately have "\<not> window_x1 s \<le> window_x2 s" by simp
  then show ?thesis by (simp add: display_eq)
qed

lemma blank_8_16:
  "WIDTH (blank 8 16 0) = 8" "HEIGHT (blank 8 16 0) = 16"
  "dirty_window (blank 8 16 0) = (8, 16, - 1, - 1)" "bus (blank 8 16 0) = []"
  by (simp_all add: blank_def dirty_window_def)

text \<open>
  Claim C7, with the sentinel that \<open>_resetDirtyWindow\<close> leaves as the parameter \<open>e\<close>, an
  empty rectangle of the max/min kind for the display. Starting from the empty window, a
  sequence of calls of the primitives of which at least one survives clipping leaves the
  dirty window equal to the bounding box (min of mins, max of maxes) of the clipped
  rectangles of the calls that survive clipping; a call that is clipped away changes
  neither buffer nor window. After \<open>display\<close> the window is the sentinel again, and a second
  \<open>display\<close> with no draw in between puts nothing on the bus.
\<close>

theorem dirty_window_bounding_box:
  assumes e: "empty_sentinel s e"
  shows "(dirty_window s = e \<and> List.map_filter (clip_rect s) ds \<noteq> [] \<longrightarrow>
            dirty_window (apply_draws s ds) = bounding_box (List.map_filter (clip_rect s) ds)) \<and>
         dirty_window (display e s) = e \<and>
         empty_sentinel (display e s) e \<and>
         bus (display e (display e s)) = bus (display e s)"
proof (intro conjI impI)
  assume "dirty_window s = e \<and> List.map_filter (clip_rect s) ds \<noteq> []"
  then have "dirty_window s = e" "List.map_filter (clip_rect s) ds \<noteq> []" by simp_all
  with e show "dirty_window (apply_draws s ds) = bounding_box (List.map_filter (clip_rect s) ds)"
    by (rule dirty_window_of_draws)
next
  show "dirty_window (display e s) = e" by (rule display_frame)
next
  show es: "empty_sentinel (display e s) e"
    using e by (simp only: empty_sentinel_cong [of "display e s" s, OF display_frame(1,2)])
  show "bus (display e (display e s)) = bus (display e s)"
    using es display_frame(4) by (rule display_empty_window)
qed

theorem dirty_window_bounding_box_witness:
  "empty_sentinel (blank 8 16 0) (8, 16, - 1, - 1) \<and>
   dirty_window (blank 8 16 0) = (8, 16, - 1, - 1) \<and>
   List.map_filter (clip_rect (blank 8 16 0))
     [HRun 1 2 3 SSD1315_WHITE, VRun 5 4 9 SSD1315_INVERSE, HRun 9 0 4 SSD1315_WHITE] =
     [(1, 2, 3, 2), (5, 4, 5, 12)] \<and>
   dirty_window (apply_draws (blank 8 16 0)
     [HRun 1 2 3 SSD1315_WHITE, VRun 5 4 9 SSD1315_INVERSE, HRun 9 0 4 SSD1315_WHITE]) =
     (1, 2, 5, 12) \<and>
   dirty_window (display (8, 16, - 1, - 1) (blank 8 16 0)) = (8, 16, - 1, - 1) \<and>
   bus (display (8, 16, - 1, - 1) (display (8, 16, - 1, - 1) (blank 8 16 0))) =
     bus (display (8, 16, - 1, - 1) (blank 8 16 0))"
proof -
  have es: "empty_sentinel (blank 8 16 0) (8, 16, - 1, - 1)"
    by (simp add: empty_sentinel_def blank_8_16)
  have mf: "List.map_filter (clip_rect (blank 8 16 0))
     [HRun 1 2 3 SSD1315_WHITE, VRun 5 4 9 SSD1315_INVERSE, HRun 9 0 4 SSD1315_WHITE] =
     [(1, 2, 3, 2), (5, 4, 5, 12)]"
    by (simp add: List.map_filter_simps blank_8_16)
  have bb: "bounding_box [(1, 2, 3, 2), (5, 4, 5, 12)] = (1, 2, 5, 12)"
    by (simp add: bounding_box_def)
  show ?thesis
    using dirty_window_bounding_box [OF es,
        of "[HRun 1 2 3 SSD1315_WHITE, VRun 5 4 9 SSD1315_INVERSE, HRun 9 0 4 SSD1315_WHITE]"]
    by (simp add: es mf bb blank_8_16)
qed

end
